theory Spec2Isabelle
  imports Complex_Main "HOL-Library.Word" "HOL-Library.Multiset"
begin

unbundle bit_operations_syntax

section \<open>Scores\<close>

text \<open>
  The search works on Python floats: integer-valued evaluations (the evaluator returns
  \<open>float(score)\<close> of an integer sum, or the integer \<open>MATE_SCORE\<close>), and the two
  infinities \<open>-math.inf\<close> and \<open>math.inf\<close> that open the root window. A score is
  therefore an integer or one of the two infinities; negation and comparison are those
  of the extended number line.
\<close>

datatype score = NegInf | Fin int | PosInf

instantiation score :: linorder
begin

fun less_eq_score :: "score \<Rightarrow> score \<Rightarrow> bool" where
  "less_eq_score NegInf _ = True"
| "less_eq_score _ PosInf = True"
| "less_eq_score (Fin a) (Fin b) = (a \<le> b)"
| "less_eq_score _ _ = False"

definition less_score :: "score \<Rightarrow> score \<Rightarrow> bool" where
  "less_score a b = (a \<le> b \<and> \<not> b \<le> a)"

instance
proof
  fix x y z :: score
  show "(x < y) = (x \<le> y \<and> \<not> y \<le> x)" by (simp add: less_score_def)
  show "x \<le> x" by (cases x) simp_all
  show "x \<le> y \<Longrightarrow> y \<le> z \<Longrightarrow> x \<le> z"
    by (cases x; cases y; cases z) simp_all
  show "x \<le> y \<Longrightarrow> y \<le> x \<Longrightarrow> x = y"
    by (cases x; cases y) simp_all
  show "x \<le> y \<or> y \<le> x"
    by (cases x; cases y) auto
qed

end

instantiation score :: uminus
begin

fun uminus_score :: "score \<Rightarrow> score" where
  "uminus_score NegInf = PosInf"
| "uminus_score (Fin a) = Fin (- a)"
| "uminus_score PosInf = NegInf"

instance ..

end

section \<open>The rules provider and the other external collaborators\<close>

text \<open>
  Positions and moves belong to the python-chess library, which is not part of the
  repository: a position is a value of an arbitrary type \<open>'p\<close>, a move a value of
  \<open>'m\<close>, and the library functions the engine calls are the fields of a record.
  The wall clock (\<open>time.time()\<close>) and the random source (\<open>random\<close>) are external in
  the same way: \<open>now E k\<close> is the k-th reading of the clock, and
  \<open>randbelow E k n\<close> the k-th random draw when a number below \<open>n\<close> is asked for.
\<close>

type_synonym square = "6 word"

record ('p, 'm) ext =
  legal_moves :: "'p \<Rightarrow> 'm list"
  push :: "'p \<Rightarrow> 'm \<Rightarrow> 'p"
  is_capture :: "'p \<Rightarrow> 'm \<Rightarrow> bool"
  is_checkmate :: "'p \<Rightarrow> bool"
  is_game_over :: "'p \<Rightarrow> bool"
  result :: "'p \<Rightarrow> string"
  turn :: "'p \<Rightarrow> bool"
  fen :: "'p \<Rightarrow> string"
  pieces :: "'p \<Rightarrow> nat \<Rightarrow> bool \<Rightarrow> square list"
  now :: "nat \<Rightarrow> real"
  randbelow :: "nat \<Rightarrow> nat \<Rightarrow> nat"

definition WHITE :: bool where "WHITE = True"
definition BLACK :: bool where "BLACK = False"

definition PAWN :: nat where "PAWN = 1"
definition KNIGHT :: nat where "KNIGHT = 2"
definition BISHOP :: nat where "BISHOP = 3"
definition ROOK :: nat where "ROOK = 4"
definition QUEEN :: nat where "QUEEN = 5"
definition KING :: nat where "KING = 6"

section \<open>engine/eval.py\<close>

definition PIECE_VALUES :: "(nat \<times> int) list" where
  "PIECE_VALUES =
     [(PAWN, 100), (KNIGHT, 320), (BISHOP, 330), (ROOK, 500), (QUEEN, 900), (KING, 0)]"

definition MATE_SCORE :: int where "MATE_SCORE = 100000"

definition PAWN_PST :: "int list" where
  "PAWN_PST = [
      0,   0,   0,   0,   0,   0,   0,   0,
     50,  50,  50,  50,  50,  50,  50,  50,
     10,  10,  20,  30,  30,  20,  10,  10,
      5,   5,  10,  25,  25,  10,   5,   5,
      0,   0,   0,  20,  20,   0,   0,   0,
      5,  -5, -10,   0,   0, -10,  -5,   5,
      5,  10,  10, -20, -20,  10,  10,   5,
      0,   0,   0,   0,   0,   0,   0,   0]"

definition KNIGHT_PST :: "int list" where
  "KNIGHT_PST = [
    -50, -40, -30, -30, -30, -30, -40, -50,
    -40, -20,   0,   5,   5,   0, -20, -40,
    -30,   5,  10,  15,  15,  10,   5, -30,
    -30,   0,  15,  20,  20,  15,   0, -30,
    -30,   5,  15,  20,  20,  15,   5, -30,
    -30,   0,  10,  15,  15,  10,   0, -30,
    -40, -20,   0,   0,   0,   0, -20, -40,
    -50, -40, -30, -30, -30, -30, -40, -50]"

definition BISHOP_PST :: "int list" where
  "BISHOP_PST = [
    -20, -10, -10, -10, -10, -10, -10, -20,
    -10,   5,   0,   0,   0,   0,   5, -10,
    -10,  10,  10,  10,  10,  10,  10, -10,
    -10,   0,  10,  10,  10,  10,   0, -10,
    -10,   5,   5,  10,  10,   5,   5, -10,
    -10,   0,   5,  10,  10,   5,   0, -10,
    -10,   0,   0,   0,   0,   0,   0, -10,
    -20, -10, -10, -10, -10, -10, -10, -20]"

definition ROOK_PST :: "int list" where
  "ROOK_PST = [
      0,   0,   5,  10,  10,   5,   0,   0,
    -10,   0,   0,   0,   0,   0,   0, -10,
    -10,   0,   0,   0,   0,   0,   0, -10,
    -10,   0,   0,   0,   0,   0,   0, -10,
    -10,   0,   0,   0,   0,   0,   0, -10,
    -10,   0,   0,   0,   0,   0,   0, -10,
     10,  10,  10,  10,  10,  10,  10,  10,
      0,   0,   0,   0,   0,   0,   0,   0]"

definition QUEEN_PST :: "int list" where
  "QUEEN_PST = [
    -20, -10, -10,  -5,  -5, -10, -10, -20,
    -10,   0,   5,   0,   0,   0,   0, -10,
    -10,   5,   5,   5,   5,   5,   0, -10,
     -5,   0,   5,   5,   5,   5,   0,  -5,
      0,   0,   5,   5,   5,   5,   0,  -5,
    -10,   5,   5,   5,   5,   5,   0, -10,
    -10,   0,   5,   0,   0,   0,   0, -10,
    -20, -10, -10,  -5,  -5, -10, -10, -20]"

definition KING_PST_MID :: "int list" where
  "KING_PST_MID = [
    -30, -40, -40, -50, -50, -40, -40, -30,
    -30, -40, -40, -50, -50, -40, -40, -30,
    -30, -40, -40, -50, -50, -40, -40, -30,
    -30, -40, -40, -50, -50, -40, -40, -30,
    -20, -30, -30, -40, -40, -30, -30, -20,
    -10, -20, -20, -20, -20, -20, -20, -10,
     20,  20,   0,   0,   0,   0,  20,  20,
     20,  30,  10,   0,   0,  10,  30,  20]"

definition KING_PST_END :: "int list" where
  "KING_PST_END = [
    -50, -40, -30, -20, -20, -30, -40, -50,
    -30, -20, -10,   0,   0, -10, -20, -30,
    -30, -10,  20,  30,  30,  20, -10, -30,
    -30, -10,  30,  40,  40,  30, -10, -30,
    -30, -10,  30,  40,  40,  30, -10, -30,
    -30, -10,  20,  30,  30,  20, -10, -30,
    -30, -30,   0,   0,   0,   0, -30, -30,
    -50, -30, -30, -30, -30, -30, -30, -50]"

definition is_endgame :: "('p, 'm) ext \<Rightarrow> 'p \<Rightarrow> bool" where
  "is_endgame E b =
     (let queens = length (pieces E b QUEEN WHITE) + length (pieces E b QUEEN BLACK);
          rooks = length (pieces E b ROOK WHITE) + length (pieces E b ROOK BLACK)
      in queens = 0 \<or> (queens = 1 \<and> rooks \<le> 1))"

text \<open>\<open>chess.square_mirror(square)\<close> is \<open>square ^ 0x38\<close>.\<close>

definition square_mirror :: "square \<Rightarrow> square" where
  "square_mirror sq = sq XOR 56"

text \<open>
  A square is one of the 64 indices 0..63, so the table lookup \<open>table[idx]\<close> is always
  in range: every table has 64 entries.
\<close>

definition pst_value :: "nat \<Rightarrow> square \<Rightarrow> bool \<Rightarrow> bool \<Rightarrow> int" where
  "pst_value piece_type sq color endgame =
     (let idx = (if color = WHITE then sq else square_mirror sq) in
      if piece_type = PAWN then PAWN_PST ! unat idx
      else if piece_type = KNIGHT then KNIGHT_PST ! unat idx
      else if piece_type = BISHOP then BISHOP_PST ! unat idx
      else if piece_type = ROOK then ROOK_PST ! unat idx
      else if piece_type = QUEEN then QUEEN_PST ! unat idx
      else if piece_type = KING then (if endgame then KING_PST_END else KING_PST_MID) ! unat idx
      else 0)"

text \<open>
  \<open>evaluate\<close> returns \<open>MATE_SCORE\<close>, \<open>-MATE_SCORE\<close>, \<open>0.0\<close> or \<open>float(score)\<close> of
  an integer sum: an integer in each case.
\<close>

definition evaluate :: "('p, 'm) ext \<Rightarrow> 'p \<Rightarrow> int" where
  "evaluate E b =
     (if is_game_over E b then
        (let r = result E b in
         if r = ''1-0'' then MATE_SCORE
         else if r = ''0-1'' then - MATE_SCORE
         else 0)
      else
        (let endgame = is_endgame E b;
             score = fold (\<lambda>(piece_type, v) sc.
                       fold (\<lambda>sq x. x - v - pst_value piece_type sq BLACK endgame)
                         (pieces E b piece_type BLACK)
                         (fold (\<lambda>sq x. x + v + pst_value piece_type sq WHITE endgame)
                            (pieces E b piece_type WHITE) sc))
                     PIECE_VALUES 0
         in if turn E b = WHITE then score + 10 else score - 10))"


section \<open>engine/board.py and the program state\<close>

datatype NodeType = EXACT | LOWERBOUND | UPPERBOUND

text \<open>
  \<open>TTEntry\<close>. The field \<open>best_move\<close> holds \<open>None\<close> when no move improved on
  \<open>-math.inf\<close>.
\<close>

record 'm TTEntry =
  tt_depth :: int
  tt_score :: score
  tt_node_type :: NodeType
  tt_best_move :: "'m option"

text \<open>
  A \<open>Board\<close> is a mutable object: \<open>push\<close> changes it in place and \<open>copy\<close> makes a
  new one. The state therefore has a store of boards, addressed by object identity:
  \<open>heap s a\<close> is the position the board \<open>a\<close> holds, and the identities below
  \<open>nxt s\<close> are the boards that exist. The rest of the state is the module-level
  \<open>TRANSPOSITION_TABLE\<close>, keyed by FEN, the number of clock readings taken and the
  number of random draws made. The last field is not program state: \<open>windows\<close>
  records the \<open>(alpha, beta)\<close> with which each call of \<open>_negamax\<close> and
  \<open>_quiescence\<close> was entered, so that a property of every call can be stated; the
  program never reads it.
\<close>

record ('p, 'm) state =
  heap :: "nat \<Rightarrow> 'p"
  nxt :: nat
  tt :: "string \<rightharpoonup> 'm TTEntry"
  clock :: nat
  rnd :: nat
  windows :: "(score \<times> score) list"

text \<open>\<open>Board.copy\<close>: a new board holding the same position.\<close>

definition board_copy :: "nat \<Rightarrow> ('p, 'm) state \<Rightarrow> nat \<times> ('p, 'm) state" where
  "board_copy a s = (nxt s, s\<lparr>heap := (heap s)(nxt s := heap s a), nxt := Suc (nxt s)\<rparr>)"

text \<open>\<open>Board.push\<close>: the board \<open>a\<close> is changed in place.\<close>

definition board_push :: "('p, 'm) ext \<Rightarrow> nat \<Rightarrow> 'm \<Rightarrow> ('p, 'm) state \<Rightarrow> ('p, 'm) state" where
  "board_push E a m s = s\<lparr>heap := (heap s)(a := push E (heap s a) m)\<rparr>"

section \<open>engine/search.py\<close>

text \<open>
  The time check \<open>max_time is not None and time.time() - start_time > max_time\<close>:
  the clock is read only when there is a limit.
\<close>

definition time_up :: "('p, 'm) ext \<Rightarrow> real \<Rightarrow> real option \<Rightarrow> ('p, 'm) state \<Rightarrow> bool \<times> ('p, 'm) state" where
  "time_up E start_time max_time s =
     (case max_time of
        None \<Rightarrow> (False, s)
      | Some t \<Rightarrow> (now E (clock s) - start_time > t, s\<lparr>clock := Suc (clock s)\<rparr>))"

text \<open>
  \<open>random.shuffle\<close>: for \<open>i\<close> from \<open>len(x) - 1\<close> down to 1, a draw \<open>j\<close> below
  \<open>i + 1\<close> and the exchange of \<open>x[i]\<close> and \<open>x[j]\<close>.
\<close>

fun shuffle_steps :: "('p, 'm) ext \<Rightarrow> nat \<Rightarrow> nat \<Rightarrow> 'a list \<Rightarrow> 'a list" where
  "shuffle_steps E k 0 x = x"
| "shuffle_steps E k (Suc i) x =
     (let j = randbelow E k (Suc i + 1) mod (Suc i + 1)
      in shuffle_steps E (Suc k) i (x[Suc i := x ! j, j := x ! Suc i]))"

definition shuffle :: "('p, 'm) ext \<Rightarrow> 'a list \<Rightarrow> ('p, 'm) state \<Rightarrow> 'a list \<times> ('p, 'm) state" where
  "shuffle E x s =
     (shuffle_steps E (rnd s) (length x - 1) x, s\<lparr>rnd := rnd s + (length x - 1)\<rparr>)"

definition order_moves ::
  "('p, 'm) ext \<Rightarrow> 'p \<Rightarrow> 'm list \<Rightarrow> 'm option \<Rightarrow> ('p, 'm) state \<Rightarrow> 'm list \<times> ('p, 'm) state" where
  "order_moves E b moves tt_move s =
     (let captures = filter (\<lambda>m. tt_move \<noteq> Some m \<and> is_capture E b m) moves;
          quiets = filter (\<lambda>m. tt_move \<noteq> Some m \<and> \<not> is_capture E b m) moves;
          (captures', s1) = shuffle E captures s;
          (quiets', s2) = shuffle E quiets s1
      in ((case tt_move of None \<Rightarrow> [] | Some t \<Rightarrow> [t]) @ captures' @ quiets', s2))"

text \<open>
  \<open>_quiescence\<close> and its loop over the capturing moves. The recursion has no depth
  limit in the source, so the model counts the nesting of calls: the first argument is
  the number of nested calls still allowed, and the result is \<open>None\<close> when that number
  is used up.
\<close>

function quiescence ::
  "nat \<Rightarrow> ('p, 'm) ext \<Rightarrow> nat \<Rightarrow> score \<Rightarrow> score \<Rightarrow> int \<Rightarrow> real \<Rightarrow> real option
   \<Rightarrow> ('p, 'm) state \<Rightarrow> (score \<times> ('p, 'm) state) option"
and quiescence_loop ::
  "nat \<Rightarrow> ('p, 'm) ext \<Rightarrow> nat \<Rightarrow> 'm list \<Rightarrow> score \<Rightarrow> score \<Rightarrow> int \<Rightarrow> real \<Rightarrow> real option
   \<Rightarrow> ('p, 'm) state \<Rightarrow> (score \<times> ('p, 'm) state) option"
where
  "quiescence 0 E a alpha beta color start_time max_time s = None"
| "quiescence (Suc n) E a alpha beta color start_time max_time s =
     (let (up, s1) = time_up E start_time max_time (s\<lparr>windows := windows s @ [(alpha, beta)]\<rparr>)
      in if up then Some (Fin (color * evaluate E (heap s1 a)), s1)
      else
        let stand_pat = Fin (color * evaluate E (heap s1 a))
        in if stand_pat \<ge> beta then Some (stand_pat, s1)
        else
          let alpha1 = (if stand_pat > alpha then stand_pat else alpha);
              capture_moves = filter (is_capture E (heap s1 a)) (legal_moves E (heap s1 a))
          in if capture_moves = [] then Some (stand_pat, s1)
          else quiescence_loop n E a capture_moves alpha1 beta color start_time max_time s1)"
| "quiescence_loop n E a [] alpha beta color start_time max_time s = Some (alpha, s)"
| "quiescence_loop n E a (m # ms) alpha beta color start_time max_time s =
     (let (child, s1) = board_copy a s;
          s2 = board_push E child m s1
      in case quiescence n E child (- beta) (- alpha) (- color) start_time max_time s2 of
           None \<Rightarrow> None
         | Some (r, s3) \<Rightarrow>
             (let sc = - r
              in if sc \<ge> beta then Some (sc, s3)
              else quiescence_loop n E a ms (if sc > alpha then sc else alpha) beta color
                     start_time max_time s3))"
  by pat_completeness auto
termination
  by (relation "measures [\<lambda>x. case x of Inl (n, _) \<Rightarrow> 2 * n | Inr (n, _) \<Rightarrow> 2 * n + 1,
                           \<lambda>x. case x of Inl _ \<Rightarrow> 0 | Inr (_, _, _, ms, _) \<Rightarrow> length ms]") auto

text \<open>
  The transposition probe of \<open>_negamax\<close> (the lookup and the \<open>if\<close> that follows it):
  \<open>Inl r\<close> when the node returns \<open>r\<close> at once, \<open>Inr (alpha, beta)\<close> with the window
  the node goes on with otherwise.
\<close>

definition tt_probe :: "'m TTEntry option \<Rightarrow> int \<Rightarrow> score \<Rightarrow> score \<Rightarrow> score + score \<times> score" where
  "tt_probe entry depth alpha beta =
     (case entry of
        None \<Rightarrow> Inr (alpha, beta)
      | Some e \<Rightarrow>
          if tt_depth e \<ge> depth then
            (if tt_node_type e = EXACT then Inl (tt_score e)
             else
               let alpha1 = (if tt_node_type e = LOWERBOUND then max alpha (tt_score e) else alpha);
                   beta1 = (if tt_node_type e \<noteq> LOWERBOUND \<and> tt_node_type e = UPPERBOUND
                            then min beta (tt_score e) else beta)
               in if alpha1 \<ge> beta1 then Inl (tt_score e) else Inr (alpha1, beta1))
          else Inr (alpha, beta))"

text \<open>
  \<open>_negamax\<close> and its loop over the ordered moves. The loop returns the final
  \<open>value\<close>, \<open>best_move\<close> and \<open>alpha\<close>, which the code after the loop reads. The
  first argument counts the nesting of calls, as in \<open>quiescence\<close>.
\<close>

function negamax ::
  "nat \<Rightarrow> ('p, 'm) ext \<Rightarrow> nat \<Rightarrow> int \<Rightarrow> score \<Rightarrow> score \<Rightarrow> int \<Rightarrow> real \<Rightarrow> real option
   \<Rightarrow> ('p, 'm) state \<Rightarrow> (score \<times> ('p, 'm) state) option"
and negamax_loop ::
  "nat \<Rightarrow> ('p, 'm) ext \<Rightarrow> nat \<Rightarrow> int \<Rightarrow> 'm list \<Rightarrow> score \<Rightarrow> 'm option \<Rightarrow> score \<Rightarrow> score \<Rightarrow> int
   \<Rightarrow> real \<Rightarrow> real option \<Rightarrow> ('p, 'm) state
   \<Rightarrow> (score \<times> 'm option \<times> score \<times> ('p, 'm) state) option"
where
  "negamax 0 E a depth alpha beta color start_time max_time s = None"
| "negamax (Suc n) E a depth alpha beta color start_time max_time s =
     (let (up, s1) = time_up E start_time max_time (s\<lparr>windows := windows s @ [(alpha, beta)]\<rparr>)
      in if up then Some (Fin (color * evaluate E (heap s1 a)), s1)
      else
        let fen_key = fen E (heap s1 a);
            entry = tt s1 fen_key
        in case tt_probe entry depth alpha beta of
             Inl r \<Rightarrow> Some (r, s1)
           | Inr (alpha1, beta1) \<Rightarrow>
               if depth = 0 then quiescence n E a alpha1 beta1 color start_time max_time s1
               else
                 let legal = legal_moves E (heap s1 a)
                 in if legal = [] then
                      (if is_checkmate E (heap s1 a) then Some (Fin (- color * MATE_SCORE), s1)
                       else Some (Fin 0, s1))
                    else
                      let (ordered_moves, s2) =
                            order_moves E (heap s1 a) legal
                              (case entry of None \<Rightarrow> None | Some e \<Rightarrow> tt_best_move e) s1
                      in case negamax_loop n E a depth ordered_moves NegInf None alpha1 beta1 color
                                start_time max_time s2 of
                           None \<Rightarrow> None
                         | Some (v, best_move, alpha2, s3) \<Rightarrow>
                             (let node_type =
                                    (if v \<le> alpha2 then UPPERBOUND
                                     else if v \<ge> beta1 then LOWERBOUND
                                     else EXACT)
                              in Some (v, s3\<lparr>tt := (tt s3)(fen_key \<mapsto>
                                   \<lparr>tt_depth = depth, tt_score = v, tt_node_type = node_type,
                                    tt_best_move = best_move\<rparr>)\<rparr>)))"
| "negamax_loop n E a depth [] v best_move alpha beta color start_time max_time s =
     Some (v, best_move, alpha, s)"
| "negamax_loop n E a depth (m # ms) v best_move alpha beta color start_time max_time s =
     (let (child, s1) = board_copy a s;
          s2 = board_push E child m s1
      in case negamax n E child (depth - 1) (- beta) (- alpha) (- color) start_time max_time s2 of
           None \<Rightarrow> None
         | Some (r, s3) \<Rightarrow>
             (let sc = - r;
                  v1 = (if sc > v then sc else v);
                  best_move1 = (if sc > v then Some m else best_move);
                  alpha1 = max alpha v1
              in if alpha1 \<ge> beta then Some (v1, best_move1, alpha1, s3)
              else negamax_loop n E a depth ms v1 best_move1 alpha1 beta color
                     start_time max_time s3))"
  by pat_completeness auto
termination
  by (relation "measures [\<lambda>x. case x of Inl (n, _) \<Rightarrow> 2 * n | Inr (n, _) \<Rightarrow> 2 * n + 1,
                           \<lambda>x. case x of Inl _ \<Rightarrow> 0 | Inr (_, _, _, _, ms, _) \<Rightarrow> length ms]") auto


text \<open>
  \<open>_negamax_root\<close> and its loop, which checks the time before each move. The result
  is the pair \<open>(best_score, best_move)\<close>.
\<close>

fun negamax_root_loop ::
  "nat \<Rightarrow> ('p, 'm) ext \<Rightarrow> nat \<Rightarrow> int \<Rightarrow> 'm list \<Rightarrow> score \<Rightarrow> 'm option \<Rightarrow> score \<Rightarrow> score \<Rightarrow> int
   \<Rightarrow> real \<Rightarrow> real option \<Rightarrow> ('p, 'm) state
   \<Rightarrow> ((score \<times> 'm option) \<times> ('p, 'm) state) option"
where
  "negamax_root_loop n E a depth [] best_score best_move alpha beta color start_time max_time s =
     Some ((best_score, best_move), s)"
| "negamax_root_loop n E a depth (m # ms) best_score best_move alpha beta color start_time max_time s =
     (let (up, s0) = time_up E start_time max_time s
      in if up then Some ((best_score, best_move), s0)
      else
        let (child, s1) = board_copy a s0;
            s2 = board_push E child m s1
        in case negamax n E child (depth - 1) (- beta) (- alpha) (- color) start_time max_time s2 of
             None \<Rightarrow> None
           | Some (r, s3) \<Rightarrow>
               (let sc = - r;
                    best_score1 = (if sc > best_score then sc else best_score);
                    best_move1 = (if sc > best_score then Some m else best_move);
                    alpha1 = max alpha sc
                in if alpha1 \<ge> beta then Some ((best_score1, best_move1), s3)
                else negamax_root_loop n E a depth ms best_score1 best_move1 alpha1 beta color
                       start_time max_time s3))"

definition negamax_root ::
  "nat \<Rightarrow> ('p, 'm) ext \<Rightarrow> nat \<Rightarrow> int \<Rightarrow> real \<Rightarrow> real option \<Rightarrow> ('p, 'm) state
   \<Rightarrow> ((score \<times> 'm option) \<times> ('p, 'm) state) option" where
  "negamax_root n E a depth start_time max_time s =
     (let legal = legal_moves E (heap s a)
      in if legal = [] then Some ((Fin (evaluate E (heap s a)), None), s)
      else
        let (ordered_moves, s1) = order_moves E (heap s a) legal None s;
            color = (if turn E (heap s a) then 1 else - 1)
        in negamax_root_loop n E a depth ordered_moves NegInf None NegInf PosInf color
             start_time max_time s1)"

text \<open>
  \<open>search_best_move\<close>: the loop over \<open>range(1, depth + 1)\<close>, then the fallback.
  \<open>random.choice(seq)\<close> is \<open>seq[randbelow(len(seq))]\<close>.
\<close>

fun deepening_loop ::
  "nat \<Rightarrow> ('p, 'm) ext \<Rightarrow> nat \<Rightarrow> int list \<Rightarrow> 'm option \<Rightarrow> score \<Rightarrow> real \<Rightarrow> real option
   \<Rightarrow> ('p, 'm) state \<Rightarrow> (('m option \<times> score) \<times> ('p, 'm) state) option"
where
  "deepening_loop n E a [] best_move best_score start_time max_time s =
     Some ((best_move, best_score), s)"
| "deepening_loop n E a (current_depth # ds) best_move best_score start_time max_time s =
     (let (up, s1) = time_up E start_time max_time s
      in if up then Some ((best_move, best_score), s1)
      else
        case negamax_root n E a current_depth start_time max_time s1 of
          None \<Rightarrow> None
        | Some ((sc, move), s2) \<Rightarrow>
            (case move of
               None \<Rightarrow> deepening_loop n E a ds best_move best_score start_time max_time s2
             | Some mv \<Rightarrow> deepening_loop n E a ds (Some mv) sc start_time max_time s2))"

definition search_best_move ::
  "nat \<Rightarrow> ('p, 'm) ext \<Rightarrow> nat \<Rightarrow> int \<Rightarrow> real option \<Rightarrow> ('p, 'm) state
   \<Rightarrow> ('m option \<times> ('p, 'm) state) option" where
  "search_best_move n E a depth max_time s =
     (let start_time = now E (clock s);
          s0 = s\<lparr>clock := Suc (clock s)\<rparr>;
          best_score = (if turn E (heap s0 a) then NegInf else PosInf)
      in case deepening_loop n E a [1..depth] None best_score start_time max_time s0 of
           None \<Rightarrow> None
         | Some ((best_move, best_score1), s1) \<Rightarrow>
             (case best_move of
                Some mv \<Rightarrow> Some (Some mv, s1)
              | None \<Rightarrow>
                  (let legal = legal_moves E (heap s1 a)
                   in if legal = [] then Some (None, s1)
                   else Some (Some (legal ! (randbelow E (rnd s1) (length legal) mod length legal)),
                              s1\<lparr>rnd := Suc (rnd s1)\<rparr>))))"


section \<open>Notions used in the statements\<close>

text \<open>
  The part of \<open>_negamax\<close> after the transposition probe (from \<open>if depth == 0\<close> to
  the final \<open>return value\<close>), as a function of the window the probe leaves and of the
  move the cached entry suggests. Lemma \<open>negamax_Suc\<close> below shows that \<open>negamax\<close>
  is the time check and the probe followed by this.
\<close>

definition negamax_search ::
  "nat \<Rightarrow> ('p, 'm) ext \<Rightarrow> nat \<Rightarrow> int \<Rightarrow> score \<Rightarrow> score \<Rightarrow> int \<Rightarrow> real \<Rightarrow> real option
   \<Rightarrow> 'm option \<Rightarrow> ('p, 'm) state \<Rightarrow> (score \<times> ('p, 'm) state) option" where
  "negamax_search n E a depth alpha1 beta1 color start_time max_time tt_move s1 =
     (if depth = 0 then quiescence n E a alpha1 beta1 color start_time max_time s1
      else
        let legal = legal_moves E (heap s1 a)
        in if legal = [] then
             (if is_checkmate E (heap s1 a) then Some (Fin (- color * MATE_SCORE), s1)
              else Some (Fin 0, s1))
           else
             let (ordered_moves, s2) = order_moves E (heap s1 a) legal tt_move s1
             in case negamax_loop n E a depth ordered_moves NegInf None alpha1 beta1 color
                       start_time max_time s2 of
                  None \<Rightarrow> None
                | Some (v, best_move, alpha2, s3) \<Rightarrow>
                    (let node_type =
                           (if v \<le> alpha2 then UPPERBOUND
                            else if v \<ge> beta1 then LOWERBOUND
                            else EXACT)
                     in Some (v, s3\<lparr>tt := (tt s3)(fen E (heap s1 a) \<mapsto>
                          \<lparr>tt_depth = depth, tt_score = v, tt_node_type = node_type,
                           tt_best_move = best_move\<rparr>)\<rparr>)))"

text \<open>
  The number of pieces on the board: the squares \<open>b.pieces(piece_type, color)\<close> lists,
  over the six piece types and the two colours.
\<close>

definition piece_count :: "('p, 'm) ext \<Rightarrow> 'p \<Rightarrow> nat" where
  "piece_count E b =
     sum_list (map (\<lambda>(piece_type, v).
        length (pieces E b piece_type WHITE) + length (pieces E b piece_type BLACK)) PIECE_VALUES)"

text \<open>The rule of chess that a capture takes a piece off the board.\<close>

definition captures_shrink :: "('p, 'm) ext \<Rightarrow> bool" where
  "captures_shrink E =
     (\<forall>b m. m \<in> set (legal_moves E b) \<longrightarrow> is_capture E b m
        \<longrightarrow> piece_count E (push E b m) < piece_count E b)"

text \<open>No move puts a new piece on the board.\<close>

definition never_grows :: "('p, 'm) ext \<Rightarrow> bool" where
  "never_grows E = (\<forall>b m. piece_count E (push E b m) \<le> piece_count E b)"

text \<open>
  \<open>preserves s s'\<close>: every board that exists in \<open>s\<close> exists in \<open>s'\<close> and holds the
  same position there.
\<close>

definition preserves :: "('p, 'm) state \<Rightarrow> ('p, 'm) state \<Rightarrow> bool" where
  "preserves s s' = (nxt s \<le> nxt s' \<and> (\<forall>b. b < nxt s \<longrightarrow> heap s' b = heap s b))"

text \<open>Every window recorded so far is a proper one.\<close>

definition windows_ok :: "('p, 'm) state \<Rightarrow> bool" where
  "windows_ok s = (\<forall>w \<in> set (windows s). fst w < snd w)"

text \<open>
  The state after \<open>child = board.copy()\<close> and \<open>child.push(move)\<close>; the child is
  the board \<open>nxt s\<close>.
\<close>

definition child_state :: "('p, 'm) ext \<Rightarrow> nat \<Rightarrow> 'm \<Rightarrow> ('p, 'm) state \<Rightarrow> ('p, 'm) state" where
  "child_state E a m s = board_push E (nxt s) m (snd (board_copy a s))"

section \<open>A small game for concrete runs\<close>

text \<open>
  Four positions. In \<open>Start\<close> White (king e1, queen d1; Black has king e8 and rook d8)
  has two quiet moves: \<open>Shuffle\<close>, after which Black can take the queen (\<open>Take\<close>), and
  \<open>Mate\<close>, which checkmates Black. A move that is not legal leaves the position as
  it is. The clock stands still and every random draw is 0.
\<close>

datatype toy_pos = Start | Quiet | Mated | Taken

datatype toy_move = Shuffle | Mate | Take

definition toy :: "(toy_pos, toy_move) ext" where
  "toy = \<lparr>legal_moves = (\<lambda>p. case p of Start \<Rightarrow> [Shuffle, Mate] | Quiet \<Rightarrow> [Take] | _ \<Rightarrow> []),
          push = (\<lambda>p m. if p = Start \<and> m = Shuffle then Quiet
                         else if p = Start \<and> m = Mate then Mated
                         else if p = Quiet \<and> m = Take then Taken
                         else p),
          is_capture = (\<lambda>p m. m = Take),
          is_checkmate = (\<lambda>p. p = Mated),
          is_game_over = (\<lambda>p. p = Mated),
          result = (\<lambda>p. if p = Mated then ''1-0'' else ''*''),
          turn = (\<lambda>p. p = Start \<or> p = Taken),
          fen = (\<lambda>p. case p of Start \<Rightarrow> ''start'' | Quiet \<Rightarrow> ''quiet'' | Mated \<Rightarrow> ''mated''
                        | Taken \<Rightarrow> ''taken''),
          pieces = (\<lambda>p piece_type c.
                      if piece_type = KING then (if c then [4] else [60])
                      else if piece_type = QUEEN \<and> c \<and> p \<noteq> Taken then [3]
                      else if piece_type = ROOK \<and> \<not> c then [59]
                      else []),
          now = (\<lambda>k. 0),
          randbelow = (\<lambda>k n. 0)\<rparr>"

text \<open>One board, holding \<open>Start\<close>; an empty transposition table.\<close>

definition toy_state :: "(toy_pos, toy_move) state" where
  "toy_state = \<lparr>heap = (\<lambda>a. Start), nxt = 1, tt = Map.empty, clock = 0, rnd = 0, windows = []\<rparr>"


text \<open>The same with the board holding \<open>Quiet\<close>: Black to move, who can take the queen.\<close>

definition quiet_state :: "(toy_pos, toy_move) state" where
  "quiet_state = toy_state\<lparr>heap := (\<lambda>a. Quiet)\<rparr>"

text \<open>The board holding \<open>Mated\<close>: Black to move, checkmated.\<close>

definition mated_state :: "(toy_pos, toy_move) state" where
  "mated_state = toy_state\<lparr>heap := (\<lambda>a. Mated)\<rparr>"

text \<open>
  The transposition table holding an entry of depth 2 for \<open>Start\<close> (the entry that
  a search of \<open>Start\<close> at depth 2 stores, see \<open>shallow_entry_is_stored\<close>), and the
  table holding a lower bound of depth 3.
\<close>

definition shallow_state :: "(toy_pos, toy_move) state" where
  "shallow_state = toy_state\<lparr>tt := [''start'' \<mapsto>
     \<lparr>tt_depth = 2, tt_score = Fin (- 500), tt_node_type = UPPERBOUND,
      tt_best_move = Some Shuffle\<rparr>]\<rparr>"

definition deep_state :: "(toy_pos, toy_move) state" where
  "deep_state = toy_state\<lparr>tt := [''start'' \<mapsto>
     \<lparr>tt_depth = 3, tt_score = Fin 50, tt_node_type = LOWERBOUND,
      tt_best_move = Some Mate\<rparr>]\<rparr>"

section \<open>Basic facts about scores\<close>

lemma score_less_simps [simp]:
  "(Fin a < Fin b) = (a < b)"
  "(NegInf < Fin a) = True" "(Fin a < PosInf) = True" "(NegInf < PosInf) = True"
  "(x < NegInf) = False" "(PosInf < x) = False"
  by (cases x; auto simp: less_score_def)+

lemma score_neg_neg [simp]: "- (- (x::score)) = x"
  by (cases x) simp_all

lemma score_neg_le [simp]: "(- (x::score) \<le> - y) = (y \<le> x)"
  by (cases x; cases y) simp_all

lemma score_neg_less [simp]: "(- (x::score) < - y) = (y < x)"
  by (simp add: less_score_def)

section \<open>Basic facts about the state operations\<close>

lemma child_state_fields [simp]:
  "nxt (child_state E a m s) = Suc (nxt s)"
  "heap (child_state E a m s) (nxt s) = push E (heap s a) m"
  "b \<noteq> nxt s \<Longrightarrow> heap (child_state E a m s) b = heap s b"
  "tt (child_state E a m s) = tt s"
  "windows (child_state E a m s) = windows s"
  "clock (child_state E a m s) = clock s"
  "rnd (child_state E a m s) = rnd s"
  by (simp_all add: child_state_def board_copy_def board_push_def)

lemma preserves_refl [simp]: "preserves s s"
  by (simp add: preserves_def)

lemma preserves_trans: "preserves s s1 \<Longrightarrow> preserves s1 s2 \<Longrightarrow> preserves s s2"
  by (auto simp: preserves_def)

lemma preserves_heap: "preserves s s' \<Longrightarrow> a < nxt s \<Longrightarrow> heap s' a = heap s a"
  by (simp add: preserves_def)

lemma preserves_nxt: "preserves s s' \<Longrightarrow> a < nxt s \<Longrightarrow> a < nxt s'"
  by (simp add: preserves_def)

lemma preserves_update [simp]:
  "preserves (s\<lparr>windows := w\<rparr>) s' = preserves s s'"
  "preserves s (s'\<lparr>windows := w\<rparr>) = preserves s s'"
  "preserves s (s'\<lparr>tt := t\<rparr>) = preserves s s'"
  "preserves s (s'\<lparr>rnd := k\<rparr>) = preserves s s'"
  "preserves s (s'\<lparr>clock := k\<rparr>) = preserves s s'"
  "preserves (s\<lparr>clock := k\<rparr>) s' = preserves s s'"
  by (simp_all add: preserves_def)

lemma preserves_child [simp]: "preserves s (child_state E a m s)"
  by (simp add: preserves_def)

lemma time_up_fields:
  "heap (snd (time_up E st mt s)) = heap s"
  "nxt (snd (time_up E st mt s)) = nxt s"
  "tt (snd (time_up E st mt s)) = tt s"
  "rnd (snd (time_up E st mt s)) = rnd s"
  "windows (snd (time_up E st mt s)) = windows s"
  by (simp_all add: time_up_def split: option.splits)

lemma time_up_preserves [simp]: "preserves s (snd (time_up E st mt s))"
  by (simp add: preserves_def time_up_fields)

lemma time_up_None [simp]: "time_up E st None s = (False, s)"
  by (simp add: time_up_def)

lemma order_moves_fields:
  "heap (snd (order_moves E b ms t s)) = heap s"
  "nxt (snd (order_moves E b ms t s)) = nxt s"
  "tt (snd (order_moves E b ms t s)) = tt s"
  "clock (snd (order_moves E b ms t s)) = clock s"
  "windows (snd (order_moves E b ms t s)) = windows s"
  by (simp_all add: order_moves_def shuffle_def Let_def)

lemma order_moves_preserves [simp]: "preserves s (snd (order_moves E b ms t s))"
  by (simp add: preserves_def order_moves_fields)

section \<open>Unfolding the loops\<close>

lemma quiescence_loop_Cons:
  "quiescence_loop n E a (m # ms) alpha beta color st mt s =
     (case quiescence n E (nxt s) (- beta) (- alpha) (- color) st mt (child_state E a m s) of
        None \<Rightarrow> None
      | Some (r, s3) \<Rightarrow>
          if beta \<le> - r then Some (- r, s3)
          else quiescence_loop n E a ms (if alpha < - r then - r else alpha) beta color st mt s3)"
  by (simp add: quiescence_loop.simps child_state_def board_copy_def Let_def split: option.split)

lemma quiescence_Suc:
  "quiescence (Suc n) E a alpha beta color st mt s =
     (let t = time_up E st mt (s\<lparr>windows := windows s @ [(alpha, beta)]\<rparr>);
          s1 = snd t;
          stand_pat = Fin (color * evaluate E (heap s a))
      in if fst t \<or> beta \<le> stand_pat then Some (stand_pat, s1)
         else if filter (is_capture E (heap s a)) (legal_moves E (heap s a)) = []
         then Some (stand_pat, s1)
         else quiescence_loop n E a (filter (is_capture E (heap s a)) (legal_moves E (heap s a)))
                (if alpha < stand_pat then stand_pat else alpha) beta color st mt s1)"
proof (cases "time_up E st mt (s\<lparr>windows := windows s @ [(alpha, beta)]\<rparr>)")
  case (Pair up s1)
  with time_up_fields(1)[of E st mt "s\<lparr>windows := windows s @ [(alpha, beta)]\<rparr>"]
  have "heap s1 = heap s" by simp
  with Pair show ?thesis by (simp add: Let_def)
qed

declare quiescence.simps(2) [simp del] quiescence_loop.simps(2) [simp del]

section \<open>Frame\<close>

lemma quiescence_loop_preserves_step:
  assumes q: "\<And>a alpha beta color s r s'.
     quiescence n E a alpha beta color st mt s = Some (r, s') \<Longrightarrow> preserves s s'"
  shows "quiescence_loop n E a ms alpha beta color st mt s = Some (r, s') \<Longrightarrow> preserves s s'"
proof (induction ms arbitrary: alpha s)
  case Nil
  then show ?case by simp
next
  case (Cons m ms)
  from Cons.prems obtain r1 s3 where
    c: "quiescence n E (nxt s) (- beta) (- alpha) (- color) st mt (child_state E a m s) = Some (r1, s3)"
    by (auto simp: quiescence_loop_Cons split: option.splits)
  have p: "preserves s s3"
    by (rule preserves_trans[OF preserves_child q[OF c]])
  show ?case
  proof (cases "beta \<le> - r1")
    case True
    with Cons.prems c p show ?thesis by (simp add: quiescence_loop_Cons)
  next
    case False
    with Cons.prems c have
      "quiescence_loop n E a ms (if alpha < - r1 then - r1 else alpha) beta color st mt s3 = Some (r, s')"
      by (simp add: quiescence_loop_Cons)
    from Cons.IH[OF this] p show ?thesis by (rule preserves_trans[rotated])
  qed
qed

lemma quiescence_preserves:
  "quiescence n E a alpha beta color st mt s = Some (r, s') \<Longrightarrow> preserves s s'"
proof (induction n arbitrary: a alpha beta color s r s')
  case 0
  then show ?case by simp
next
  case (Suc n)
  have l: "quiescence_loop n E a ms alpha beta color st mt s = Some (r, s') \<Longrightarrow> preserves s s'"
    for a ms alpha beta color s r s'
    by (rule quiescence_loop_preserves_step[where n = n and E = E and st = st and mt = mt])
       (rule Suc.IH)
  let ?s1 = "snd (time_up E st mt (s\<lparr>windows := windows s @ [(alpha, beta)]\<rparr>))"
  have p1: "preserves s ?s1"
    by (simp add: preserves_def time_up_fields)
  from Suc.prems have "s' = ?s1 \<or> (\<exists>ms al. quiescence_loop n E a ms al beta color st mt ?s1 = Some (r, s'))"
    by (auto simp: quiescence_Suc Let_def split: if_splits)
  then show ?case
  proof
    assume "s' = ?s1"
    with p1 show ?thesis by simp
  next
    assume "\<exists>ms al. quiescence_loop n E a ms al beta color st mt ?s1 = Some (r, s')"
    then obtain ms al where "quiescence_loop n E a ms al beta color st mt ?s1 = Some (r, s')"
      by blast
    from l[OF this] p1 show ?thesis by (rule preserves_trans[rotated])
  qed
qed

lemma quiescence_loop_preserves:
  "quiescence_loop n E a ms alpha beta color st mt s = Some (r, s') \<Longrightarrow> preserves s s'"
  by (rule quiescence_loop_preserves_step[where n = n and E = E and st = st and mt = mt])
     (rule quiescence_preserves)


lemma negamax_loop_Cons:
  "negamax_loop n E a depth (m # ms) v best_move alpha beta color st mt s =
     (case negamax n E (nxt s) (depth - 1) (- beta) (- alpha) (- color) st mt (child_state E a m s) of
        None \<Rightarrow> None
      | Some (r, s3) \<Rightarrow>
          let v1 = (if v < - r then - r else v);
              best_move1 = (if v < - r then Some m else best_move);
              alpha1 = max alpha v1
          in if beta \<le> alpha1 then Some (v1, best_move1, alpha1, s3)
             else negamax_loop n E a depth ms v1 best_move1 alpha1 beta color st mt s3)"
  by (simp add: child_state_def board_copy_def Let_def split: option.split)

lemma negamax_Suc:
  "negamax (Suc n) E a depth alpha beta color st mt s =
     (let t = time_up E st mt (s\<lparr>windows := windows s @ [(alpha, beta)]\<rparr>);
          s1 = snd t;
          entry = tt s (fen E (heap s a))
      in if fst t then Some (Fin (color * evaluate E (heap s a)), s1)
         else case tt_probe entry depth alpha beta of
                Inl r \<Rightarrow> Some (r, s1)
              | Inr (alpha1, beta1) \<Rightarrow>
                  negamax_search n E a depth alpha1 beta1 color st mt
                    (case entry of None \<Rightarrow> None | Some e \<Rightarrow> tt_best_move e) s1)"
proof (cases "time_up E st mt (s\<lparr>windows := windows s @ [(alpha, beta)]\<rparr>)")
  case (Pair up s1)
  with time_up_fields(1,3)[of E st mt "s\<lparr>windows := windows s @ [(alpha, beta)]\<rparr>"]
  have "heap s1 = heap s" "tt s1 = tt s" by simp_all
  with Pair show ?thesis
    by (simp add: Let_def negamax_search_def split: sum.split prod.split option.split)
qed

declare negamax.simps(2) [simp del] negamax_loop.simps(2) [simp del]

lemma negamax_loop_preserves_step:
  assumes q: "\<And>a depth alpha beta color s r s'.
     negamax n E a depth alpha beta color st mt s = Some (r, s') \<Longrightarrow> preserves s s'"
  shows "negamax_loop n E a depth ms v bm alpha beta color st mt s = Some (r, bm', al', s')
         \<Longrightarrow> preserves s s'"
proof (induction ms arbitrary: v bm alpha s)
  case Nil
  then show ?case by simp
next
  case (Cons m ms)
  from Cons.prems obtain r1 s3 where
    c: "negamax n E (nxt s) (depth - 1) (- beta) (- alpha) (- color) st mt (child_state E a m s)
        = Some (r1, s3)"
    by (auto simp: negamax_loop_Cons split: option.splits)
  have p: "preserves s s3"
    by (rule preserves_trans[OF preserves_child q[OF c]])
  let ?v1 = "if v < - r1 then - r1 else v"
  show ?case
  proof (cases "beta \<le> max alpha ?v1")
    case True
    with Cons.prems c have "s' = s3" by (simp add: negamax_loop_Cons Let_def)
    with p show ?thesis by simp
  next
    case False
    with Cons.prems c have
      "negamax_loop n E a depth ms ?v1 (if v < - r1 then Some m else bm) (max alpha ?v1) beta
         color st mt s3 = Some (r, bm', al', s')"
      by (simp add: negamax_loop_Cons Let_def)
    from Cons.IH[OF this] p show ?thesis by (rule preserves_trans[rotated])
  qed
qed

lemma negamax_search_preserves_step:
  assumes l: "\<And>a depth ms v bm alpha beta color s r bm' al' s'.
     negamax_loop n E a depth ms v bm alpha beta color st mt s = Some (r, bm', al', s')
       \<Longrightarrow> preserves s s'"
  shows "negamax_search n E a depth alpha beta color st mt tm s = Some (r, s') \<Longrightarrow> preserves s s'"
proof -
  assume a: "negamax_search n E a depth alpha beta color st mt tm s = Some (r, s')"
  show ?thesis
  proof (cases "depth = 0")
    case True
    with a show ?thesis by (simp add: negamax_search_def quiescence_preserves)
  next
    case d: False
    show ?thesis
    proof (cases "legal_moves E (heap s a) = []")
      case True
      with a d show ?thesis by (auto simp: negamax_search_def split: if_splits)
    next
      case False
      let ?om = "order_moves E (heap s a) (legal_moves E (heap s a)) tm s"
      from a d False obtain v bm' al' s3 where
        lp: "negamax_loop n E a depth (fst ?om) NegInf None alpha beta color st mt (snd ?om)
             = Some (v, bm', al', s3)"
        and s': "preserves s3 s'"
        by (auto simp: negamax_search_def Let_def split: prod.splits option.splits)
      have "preserves s (snd ?om)" by simp
      with l[OF lp] s' show ?thesis by (meson preserves_trans)
    qed
  qed
qed

lemma negamax_preserves:
  "negamax n E a depth alpha beta color st mt s = Some (r, s') \<Longrightarrow> preserves s s'"
proof (induction n arbitrary: a depth alpha beta color s r s')
  case 0
  then show ?case by simp
next
  case (Suc n)
  have l: "negamax_loop n E a depth ms v bm alpha beta color st mt s = Some (r, bm', al', s')
       \<Longrightarrow> preserves s s'" for a depth ms v bm alpha beta color s r bm' al' s'
    by (rule negamax_loop_preserves_step[where n = n and E = E and st = st and mt = mt])
       (rule Suc.IH)
  let ?s1 = "snd (time_up E st mt (s\<lparr>windows := windows s @ [(alpha, beta)]\<rparr>))"
  have p1: "preserves s ?s1"
    by (simp add: preserves_def time_up_fields)
  from Suc.prems have "s' = ?s1 \<or>
     (\<exists>al be tm. negamax_search n E a depth al be color st mt tm ?s1 = Some (r, s'))"
    by (auto simp: negamax_Suc Let_def split: if_splits sum.splits)
  then show ?case
  proof
    assume "s' = ?s1"
    with p1 show ?thesis by simp
  next
    assume "\<exists>al be tm. negamax_search n E a depth al be color st mt tm ?s1 = Some (r, s')"
    then obtain al be tm where
      "negamax_search n E a depth al be color st mt tm ?s1 = Some (r, s')"
      by blast
    from negamax_search_preserves_step[where n = n and E = E and st = st and mt = mt, OF l this] p1
    show ?thesis by (rule preserves_trans[rotated])
  qed
qed

lemma negamax_loop_preserves:
  "negamax_loop n E a depth ms v bm alpha beta color st mt s = Some (r, bm', al', s')
     \<Longrightarrow> preserves s s'"
  by (rule negamax_loop_preserves_step[where n = n and E = E and st = st and mt = mt])
     (rule negamax_preserves)

lemma negamax_search_preserves:
  "negamax_search n E a depth alpha beta color st mt tm s = Some (r, s') \<Longrightarrow> preserves s s'"
  by (rule negamax_search_preserves_step[where n = n and E = E and st = st and mt = mt])
     (rule negamax_loop_preserves)



section \<open>The small game, evaluated\<close>

lemmas piece_defs = PAWN_def KNIGHT_def BISHOP_def ROOK_def QUEEN_def KING_def WHITE_def BLACK_def

lemmas eval_defs = evaluate_def is_endgame_def pst_value_def PIECE_VALUES_def square_mirror_def
  PAWN_PST_def KNIGHT_PST_def BISHOP_PST_def ROOK_PST_def QUEEN_PST_def KING_PST_MID_def
  KING_PST_END_def MATE_SCORE_def

lemma toy_fields [simp]:
  "legal_moves toy p = (case p of Start \<Rightarrow> [Shuffle, Mate] | Quiet \<Rightarrow> [Take] | _ \<Rightarrow> [])"
  "push toy p m = (if p = Start \<and> m = Shuffle then Quiet
                   else if p = Start \<and> m = Mate then Mated
                   else if p = Quiet \<and> m = Take then Taken
                   else p)"
  "is_capture toy p m = (m = Take)"
  "is_checkmate toy p = (p = Mated)"
  "is_game_over toy p = (p = Mated)"
  "result toy p = (if p = Mated then ''1-0'' else ''*'')"
  "turn toy p = (p = Start \<or> p = Taken)"
  "fen toy p = (case p of Start \<Rightarrow> ''start'' | Quiet \<Rightarrow> ''quiet'' | Mated \<Rightarrow> ''mated''
                        | Taken \<Rightarrow> ''taken'')"
  "now toy k = 0"
  "randbelow toy k n = 0"
  by (simp_all add: toy_def)

lemma toy_evaluate [simp]:
  "evaluate toy Start = 395" "evaluate toy Quiet = 375" "evaluate toy Mated = 100000"
  "evaluate toy Taken = - 500"
  by (simp_all add: toy_def eval_defs piece_defs)

lemma toy_state_fields [simp]:
  "heap toy_state a = Start" "nxt toy_state = 1" "tt toy_state = Map.empty"
  "clock toy_state = 0" "rnd toy_state = 0" "windows toy_state = []"
  by (simp_all add: toy_state_def)

section \<open>The evaluator on terminal positions\<close>

text \<open>
  Claim C7. On a position where the game is over, \<open>evaluate\<close> returns exactly
  \<open>MATE_SCORE\<close> when the result is a White win (\<open>1-0\<close>), \<open>-MATE_SCORE\<close> when it
  is a Black win (\<open>0-1\<close>) and 0 otherwise (a draw), whatever pieces are on the board
  and whoever is to move: the value is the same under every piece placement \<open>ps\<close> and
  every side to move \<open>tn\<close>.
\<close>

theorem evaluate_terminal:
  "is_game_over E b \<Longrightarrow>
     evaluate (E\<lparr>pieces := ps, turn := tn\<rparr>) b =
       (if result E b = ''1-0'' then MATE_SCORE
        else if result E b = ''0-1'' then - MATE_SCORE
        else 0)"
  by (simp add: evaluate_def)

theorem evaluate_terminal_witness:
  "is_game_over toy Mated \<and> evaluate (toy\<lparr>pieces := (\<lambda>p t c. []), turn := (\<lambda>p. False)\<rparr>) Mated = MATE_SCORE"
  using evaluate_terminal [where E = toy and b = Mated and ps = "\<lambda>p t c. []" and tn = "\<lambda>p. False"]
  by simp

section \<open>Quiescence never returns less than the stand-pat value\<close>

text \<open>
  The loop over the captures returns at least any bound that is below both the
  \<open>alpha\<close> and the \<open>beta\<close> it starts with.
\<close>

lemma quiescence_loop_lower:
  "quiescence_loop n E a ms alpha beta color st mt s = Some (r, s') \<Longrightarrow> l \<le> alpha \<Longrightarrow> l \<le> beta
     \<Longrightarrow> l \<le> r"
proof (induction ms arbitrary: alpha s)
  case Nil
  then show ?case by simp
next
  case (Cons m ms)
  from Cons.prems(1) obtain r1 s3 where
    c: "quiescence n E (nxt s) (- beta) (- alpha) (- color) st mt (child_state E a m s) = Some (r1, s3)"
    by (auto simp: quiescence_loop_Cons split: option.splits)
  show ?case
  proof (cases "beta \<le> - r1")
    case True
    with Cons.prems(1) c have "r = - r1" by (simp add: quiescence_loop_Cons)
    with order_trans[OF Cons.prems(3) True] show ?thesis by simp
  next
    case False
    with Cons.prems c have
      "quiescence_loop n E a ms (if alpha < - r1 then - r1 else alpha) beta color st mt s3 = Some (r, s')"
      by (simp add: quiescence_loop_Cons)
    moreover have "l \<le> (if alpha < - r1 then - r1 else alpha)"
    proof (cases "alpha < - r1")
      case True
      from le_less_trans[OF Cons.prems(2) True] True show ?thesis by (simp add: less_imp_le)
    next
      case False
      with Cons.prems(2) show ?thesis by simp
    qed
    ultimately show ?thesis using Cons.prems(3) by (rule Cons.IH)
  qed
qed

text \<open>
  Claim C10. Whatever the position, the window, the perspective and the state of the
  clock, a value that \<open>_quiescence\<close> returns is at least the stand-pat value
  \<open>color * evaluate(board)\<close> of the position it was called on.
\<close>

theorem quiescence_at_least_stand_pat:
  "quiescence n E a alpha beta color st mt s = Some (r, s')
     \<Longrightarrow> Fin (color * evaluate E (heap s a)) \<le> r"
proof (cases n)
  case 0
  assume "quiescence n E a alpha beta color st mt s = Some (r, s')"
  with 0 show ?thesis by simp
next
  case (Suc k)
  assume q: "quiescence n E a alpha beta color st mt s = Some (r, s')"
  let ?sp = "Fin (color * evaluate E (heap s a))"
  let ?s1 = "snd (time_up E st mt (s\<lparr>windows := windows s @ [(alpha, beta)]\<rparr>))"
  from q Suc have "r = ?sp \<or> (\<not> beta \<le> ?sp \<and> (\<exists>ms. quiescence_loop k E a ms (if alpha < ?sp then ?sp else alpha) beta color st mt ?s1 = Some (r, s')))"
    by (auto simp: quiescence_Suc Let_def split: if_splits)
  then show ?thesis
  proof
    assume "r = ?sp" then show ?thesis by simp
  next
    assume "\<not> beta \<le> ?sp \<and> (\<exists>ms. quiescence_loop k E a ms (if alpha < ?sp then ?sp else alpha) beta color st mt ?s1 = Some (r, s'))"
    then obtain ms where b: "\<not> beta \<le> ?sp"
      and l: "quiescence_loop k E a ms (if alpha < ?sp then ?sp else alpha) beta color st mt ?s1 = Some (r, s')"
      by blast
    from b have b': "?sp \<le> beta" by simp
    have "?sp \<le> (if alpha < ?sp then ?sp else alpha)" by (simp add: not_less)
    then show ?thesis using b' by (rule quiescence_loop_lower[OF l])
  qed
qed

lemma quiet_run:
  "map_option fst (quiescence (Suc (Suc 0)) toy 0 NegInf PosInf (- 1) 0 None quiet_state) = Some (Fin 500)"
  by (simp add: quiescence_Suc quiescence_loop_Cons quiet_state_def Let_def
        child_state_def board_copy_def board_push_def)

theorem quiescence_at_least_stand_pat_witness:
  "map_option fst (quiescence (Suc (Suc 0)) toy 0 NegInf PosInf (- 1) 0 None quiet_state) = Some (Fin 500)
   \<and> Fin (- 1 * evaluate toy (heap quiet_state 0)) \<le> Fin 500"
proof -
  from quiet_run obtain s' where
    "quiescence (Suc (Suc 0)) toy 0 NegInf PosInf (- 1) 0 None quiet_state = Some (Fin 500, s')"
    by auto
  from quiescence_at_least_stand_pat[OF this] quiet_run show ?thesis by simp
qed

section \<open>Leaves without captures\<close>

text \<open>
  Claim C6. On a position with no legal capturing move \<open>_quiescence\<close> returns exactly
  the stand-pat value \<open>color * evaluate(board)\<close> (whether or not the deadline has
  passed), and so does \<open>_negamax\<close> at depth 0 when the transposition table holds no
  entry for the position that is deep enough to be used.
\<close>

theorem stand_pat_without_captures:
  assumes "filter (is_capture E (heap s a)) (legal_moves E (heap s a)) = []"
  shows "map_option fst (quiescence (Suc n) E a alpha beta color st mt s)
           = Some (Fin (color * evaluate E (heap s a)))
         \<and> ((\<forall>e. tt s (fen E (heap s a)) = Some e \<longrightarrow> tt_depth e < 0) \<longrightarrow>
            map_option fst (negamax (Suc (Suc n)) E a 0 alpha beta color st mt s)
              = Some (Fin (color * evaluate E (heap s a))))"
proof -
  have q: "map_option fst (quiescence (Suc n) E a al be color st mt s1)
           = Some (Fin (color * evaluate E (heap s a)))" if "heap s1 = heap s" for al be s1
    using assms that by (simp add: quiescence_Suc Let_def)
  have "map_option fst (negamax (Suc (Suc n)) E a 0 alpha beta color st mt s)
              = Some (Fin (color * evaluate E (heap s a)))"
    if "\<forall>e. tt s (fen E (heap s a)) = Some e \<longrightarrow> tt_depth e < 0"
  proof -
    from that have "tt_probe (tt s (fen E (heap s a))) 0 alpha beta = Inr (alpha, beta)"
      by (auto simp: tt_probe_def split: option.splits)
    then show ?thesis
      using q[of "snd (time_up E st mt (s\<lparr>windows := windows s @ [(alpha, beta)]\<rparr>))" alpha beta]
      by (simp add: negamax_Suc[of "Suc n"] Let_def negamax_search_def time_up_fields)
  qed
  with q[of s] show ?thesis by simp
qed

theorem stand_pat_without_captures_witness:
  "filter (is_capture toy (heap toy_state 0)) (legal_moves toy (heap toy_state 0)) = []
   \<and> (\<forall>e. tt toy_state (fen toy (heap toy_state 0)) \<noteq> Some e)
   \<and> map_option fst (quiescence (Suc 0) toy 0 NegInf PosInf 1 0 None toy_state) = Some (Fin 395)
   \<and> map_option fst (negamax (Suc (Suc 0)) toy 0 0 NegInf PosInf 1 0 None toy_state) = Some (Fin 395)"
  using stand_pat_without_captures [of toy toy_state 0 0 NegInf PosInf 1 0 None] by simp

section \<open>The root search and the entry point leave the boards alone\<close>

lemma negamax_root_loop_Cons:
  "negamax_root_loop n E a depth (m # ms) bs bm alpha beta color st mt s =
     (let s0 = snd (time_up E st mt s)
      in if fst (time_up E st mt s) then Some ((bs, bm), s0)
         else case negamax n E (nxt s) (depth - 1) (- beta) (- alpha) (- color) st mt
                     (child_state E a m s0) of
                None \<Rightarrow> None
              | Some (r, s3) \<Rightarrow>
                  if beta \<le> max alpha (- r)
                  then Some ((if bs < - r then - r else bs, if bs < - r then Some m else bm), s3)
                  else negamax_root_loop n E a depth ms (if bs < - r then - r else bs)
                         (if bs < - r then Some m else bm) (max alpha (- r)) beta color st mt s3)"
proof (cases "time_up E st mt s")
  case (Pair up s0)
  with time_up_fields(2)[of E st mt s] have "nxt s0 = nxt s" by simp
  with Pair show ?thesis
    by (simp add: child_state_def board_copy_def Let_def split: option.split)
qed

lemma deepening_loop_Cons:
  "deepening_loop n E a (d # ds) bm bs st mt s =
     (let s1 = snd (time_up E st mt s)
      in if fst (time_up E st mt s) then Some ((bm, bs), s1)
         else case negamax_root n E a d st mt s1 of
                None \<Rightarrow> None
              | Some ((sc, mv), s2) \<Rightarrow>
                  deepening_loop n E a ds (if mv = None then bm else mv)
                    (if mv = None then bs else sc) st mt s2)"
  by (cases "time_up E st mt s") (auto simp: Let_def split: option.split)

declare negamax_root_loop.simps(2) [simp del] deepening_loop.simps(2) [simp del]

lemma negamax_root_loop_preserves:
  "negamax_root_loop n E a depth ms bs bm alpha beta color st mt s = Some (r, s') \<Longrightarrow> preserves s s'"
proof (induction ms arbitrary: bs bm alpha s)
  case Nil
  then show ?case by simp
next
  case (Cons m ms)
  let ?s0 = "snd (time_up E st mt s)"
  have p0: "preserves s ?s0" by simp
  show ?case
  proof (cases "fst (time_up E st mt s)")
    case True
    with Cons.prems have "s' = ?s0" by (simp add: negamax_root_loop_Cons Let_def)
    with p0 show ?thesis by simp
  next
    case up: False
    from Cons.prems up obtain r1 s3 where
      c: "negamax n E (nxt s) (depth - 1) (- beta) (- alpha) (- color) st mt (child_state E a m ?s0)
          = Some (r1, s3)"
      by (auto simp: negamax_root_loop_Cons Let_def split: option.splits)
    have p: "preserves s s3"
      by (rule preserves_trans[OF p0 preserves_trans[OF preserves_child negamax_preserves[OF c]]])
    show ?thesis
    proof (cases "beta \<le> max alpha (- r1)")
      case True
      with Cons.prems up c have "s' = s3"
        by (simp add: negamax_root_loop_Cons Let_def)
      with p show ?thesis by simp
    next
      case False
      with Cons.prems up c have
        "negamax_root_loop n E a depth ms (if bs < - r1 then - r1 else bs)
           (if bs < - r1 then Some m else bm) (max alpha (- r1)) beta color st mt s3 = Some (r, s')"
        by (simp add: negamax_root_loop_Cons Let_def)
      from Cons.IH[OF this] p show ?thesis by (rule preserves_trans[rotated])
    qed
  qed
qed

lemma negamax_root_preserves:
  "negamax_root n E a depth st mt s = Some (r, s') \<Longrightarrow> preserves s s'"
proof -
  assume a: "negamax_root n E a depth st mt s = Some (r, s')"
  show ?thesis
  proof (cases "legal_moves E (heap s a) = []")
    case True
    with a show ?thesis by (simp add: negamax_root_def)
  next
    case False
    let ?om = "order_moves E (heap s a) (legal_moves E (heap s a)) None s"
    from a False have "negamax_root_loop n E a depth (fst ?om) NegInf None NegInf PosInf
        (if turn E (heap s a) then 1 else - 1) st mt (snd ?om) = Some (r, s')"
      by (simp add: negamax_root_def Let_def split_beta)
    from negamax_root_loop_preserves[OF this] show ?thesis
      by (rule preserves_trans[OF order_moves_preserves])
  qed
qed

lemma deepening_loop_preserves:
  "deepening_loop n E a ds bm bs st mt s = Some (r, s') \<Longrightarrow> preserves s s'"
proof (induction ds arbitrary: bm bs s)
  case Nil
  then show ?case by simp
next
  case (Cons d ds)
  let ?s1 = "snd (time_up E st mt s)"
  have p0: "preserves s ?s1" by simp
  show ?case
  proof (cases "fst (time_up E st mt s)")
    case True
    with Cons.prems have "s' = ?s1" by (simp add: deepening_loop_Cons Let_def)
    with p0 show ?thesis by simp
  next
    case False
    with Cons.prems obtain sc mv s2 where
      c: "negamax_root n E a d st mt ?s1 = Some ((sc, mv), s2)"
      by (auto simp: deepening_loop_Cons Let_def split: option.splits)
    from Cons.prems False c have
      "deepening_loop n E a ds (if mv = None then bm else mv) (if mv = None then bs else sc)
         st mt s2 = Some (r, s')"
      by (simp add: deepening_loop_Cons Let_def)
    from Cons.IH[OF this] have "preserves s2 s'" .
    with negamax_root_preserves[OF c] p0 show ?thesis
      by (meson preserves_trans)
  qed
qed

lemma search_best_move_preserves:
  "search_best_move n E a depth max_time s = Some (r, s') \<Longrightarrow> preserves s s'"
proof -
  assume a: "search_best_move n E a depth max_time s = Some (r, s')"
  let ?s0 = "s\<lparr>clock := Suc (clock s)\<rparr>"
  from a obtain x s1 where
    d: "deepening_loop n E a [1..depth] None (if turn E (heap ?s0 a) then NegInf else PosInf)
          (now E (clock s)) max_time ?s0 = Some (x, s1)"
    and s': "s' = s1 \<or> s' = s1\<lparr>rnd := Suc (rnd s1)\<rparr>"
    by (auto simp: search_best_move_def Let_def split: option.splits if_splits)
  from deepening_loop_preserves[OF d] have "preserves s s1" by simp
  with s' show ?thesis by auto
qed

text \<open>
  Claim C9. A board \<open>b\<close> that exists when \<open>search_best_move\<close>, \<open>_negamax_root\<close>,
  \<open>_negamax\<close> or \<open>_quiescence\<close> is called holds the same position when the call
  returns, and \<open>_order_moves\<close> changes no board: moves are pushed only on the boards
  that \<open>Board.copy\<close> creates during the call. (\<open>evaluate\<close> takes the position and
  returns a number; it has no state to change.) This holds for the board \<open>a\<close> the
  search is called on in particular.
\<close>

theorem search_leaves_boards_unchanged:
  assumes "b < nxt s"
  shows "(search_best_move n E a depth max_time s = Some (mv, s') \<longrightarrow> heap s' b = heap s b)
   \<and> (negamax_root n E a depth st mt s = Some (rr, s') \<longrightarrow> heap s' b = heap s b)
   \<and> (negamax n E a depth alpha beta color st mt s = Some (r, s') \<longrightarrow> heap s' b = heap s b)
   \<and> (quiescence n E a alpha beta color st mt s = Some (r, s') \<longrightarrow> heap s' b = heap s b)
   \<and> heap (snd (order_moves E (heap s a) ms tm s)) b = heap s b"
  using assms search_best_move_preserves[of n E a depth max_time s mv s']
    negamax_root_preserves[of n E a depth st mt s rr s']
    negamax_preserves[of n E a depth alpha beta color st mt s r s']
    quiescence_preserves[of n E a alpha beta color st mt s r s']
  by (simp add: preserves_def order_moves_fields)

text \<open>Unfolding a run of the search on the small game.\<close>

lemmas run_defs = search_best_move_def negamax_root_def negamax_root_loop_Cons deepening_loop_Cons
  negamax_Suc negamax_search_def negamax_loop_Cons quiescence_Suc quiescence_loop_Cons
  tt_probe_def order_moves_def shuffle_def child_state_def board_copy_def board_push_def
  Let_def MATE_SCORE_def eval_nat_numeral

lemma toy_search_run:
  "map_option fst (search_best_move 5 toy 0 2 None toy_state) = Some (Some Shuffle)"
  by (simp add: run_defs upto.simps)

lemma toy_search_run1:
  "map_option fst (search_best_move 5 toy 0 1 None toy_state) = Some (Some Mate)"
  by (simp add: run_defs upto.simps)

theorem search_leaves_boards_unchanged_witness:
  "\<exists>s'. search_best_move 5 toy 0 2 None toy_state = Some (Some Shuffle, s')
        \<and> 0 < nxt toy_state \<and> heap s' 0 = Start"
proof -
  from toy_search_run obtain s' where
    r: "search_best_move 5 toy 0 2 None toy_state = Some (Some Shuffle, s')"
    by auto
  with search_leaves_boards_unchanged[of 0 toy_state 5 toy 0 2 None "Some Shuffle" s']
  have "heap s' 0 = heap toy_state 0" by simp
  with r show ?thesis by simp
qed

section \<open>Every call is entered with a proper window\<close>

lemma windows_ok_same: "windows s' = windows s \<Longrightarrow> windows_ok s' = windows_ok s"
  by (simp add: windows_ok_def)

lemma windows_ok_entry:
  "alpha < beta \<Longrightarrow> windows_ok s
     \<Longrightarrow> windows_ok (snd (time_up E st mt (s\<lparr>windows := windows s @ [(alpha, beta)]\<rparr>)))"
  by (simp add: windows_ok_def time_up_fields)

lemma windows_ok_child [simp]: "windows_ok (child_state E a m s) = windows_ok s"
  by (simp add: windows_ok_def)

lemma windows_ok_order [simp]: "windows_ok (snd (order_moves E b ms t s)) = windows_ok s"
  by (simp add: windows_ok_def order_moves_fields)

lemma windows_ok_time [simp]: "windows_ok (snd (time_up E st mt s)) = windows_ok s"
  by (simp add: windows_ok_def time_up_fields)

lemma windows_ok_update [simp]:
  "windows_ok (s\<lparr>tt := t\<rparr>) = windows_ok s"
  "windows_ok (s\<lparr>rnd := k\<rparr>) = windows_ok s"
  "windows_ok (s\<lparr>clock := k\<rparr>) = windows_ok s"
  by (simp_all add: windows_ok_def)

lemma tt_probe_window:
  "tt_probe entry depth alpha beta = Inr (alpha1, beta1) \<Longrightarrow> alpha < beta \<Longrightarrow> alpha1 < beta1"
  by (auto simp: tt_probe_def Let_def not_le split: option.splits if_splits)

lemma quiescence_loop_windows_step:
  assumes q: "\<And>a alpha beta color s r s'.
     quiescence n E a alpha beta color st mt s = Some (r, s') \<Longrightarrow> alpha < beta \<Longrightarrow> windows_ok s
       \<Longrightarrow> windows_ok s'"
  shows "quiescence_loop n E a ms alpha beta color st mt s = Some (r, s') \<Longrightarrow> alpha < beta
         \<Longrightarrow> windows_ok s \<Longrightarrow> windows_ok s'"
proof (induction ms arbitrary: alpha s)
  case Nil
  then show ?case by simp
next
  case (Cons m ms)
  from Cons.prems(1) obtain r1 s3 where
    c: "quiescence n E (nxt s) (- beta) (- alpha) (- color) st mt (child_state E a m s) = Some (r1, s3)"
    by (auto simp: quiescence_loop_Cons split: option.splits)
  from Cons.prems(2) have "- beta < - alpha" by simp
  with q[OF c] Cons.prems(3) have w3: "windows_ok s3" by simp
  show ?case
  proof (cases "beta \<le> - r1")
    case True
    with Cons.prems(1) c w3 show ?thesis by (simp add: quiescence_loop_Cons)
  next
    case False
    with Cons.prems(1) c have l:
      "quiescence_loop n E a ms (if alpha < - r1 then - r1 else alpha) beta color st mt s3 = Some (r, s')"
      by (simp add: quiescence_loop_Cons)
    from False Cons.prems(2) have "(if alpha < - r1 then - r1 else alpha) < beta"
      by (simp add: not_le)
    with l show ?thesis using w3 by (rule Cons.IH)
  qed
qed

lemma quiescence_windows:
  "quiescence n E a alpha beta color st mt s = Some (r, s') \<Longrightarrow> alpha < beta \<Longrightarrow> windows_ok s
     \<Longrightarrow> windows_ok s'"
proof (induction n arbitrary: a alpha beta color s r s')
  case 0
  then show ?case by simp
next
  case (Suc n)
  have lw: "quiescence_loop n E a ms alpha beta color st mt s = Some (r, s') \<Longrightarrow> alpha < beta
         \<Longrightarrow> windows_ok s \<Longrightarrow> windows_ok s'" for a ms alpha beta color s r s'
    by (rule quiescence_loop_windows_step[where n = n and E = E and st = st and mt = mt])
       (rule Suc.IH)
  let ?sp = "Fin (color * evaluate E (heap s a))"
  let ?s1 = "snd (time_up E st mt (s\<lparr>windows := windows s @ [(alpha, beta)]\<rparr>))"
  from Suc.prems(2,3) have w1: "windows_ok ?s1" by (rule windows_ok_entry)
  from Suc.prems(1) have "s' = ?s1 \<or> (\<not> beta \<le> ?sp \<and>
      (\<exists>ms. quiescence_loop n E a ms (if alpha < ?sp then ?sp else alpha) beta color st mt ?s1
             = Some (r, s')))"
    by (auto simp: quiescence_Suc Let_def split: if_splits)
  then show ?case
  proof
    assume "s' = ?s1"
    with w1 show ?thesis by simp
  next
    assume "\<not> beta \<le> ?sp \<and>
      (\<exists>ms. quiescence_loop n E a ms (if alpha < ?sp then ?sp else alpha) beta color st mt ?s1
             = Some (r, s'))"
    then obtain ms where b: "\<not> beta \<le> ?sp" and l:
      "quiescence_loop n E a ms (if alpha < ?sp then ?sp else alpha) beta color st mt ?s1 = Some (r, s')"
      by blast
    from b Suc.prems(2) have "(if alpha < ?sp then ?sp else alpha) < beta" by (simp add: not_le)
    with l show ?thesis using w1 by (rule lw)
  qed
qed

lemma quiescence_loop_windows:
  "quiescence_loop n E a ms alpha beta color st mt s = Some (r, s') \<Longrightarrow> alpha < beta
     \<Longrightarrow> windows_ok s \<Longrightarrow> windows_ok s'"
  by (rule quiescence_loop_windows_step[where n = n and E = E and st = st and mt = mt])
     (rule quiescence_windows)


lemma negamax_loop_windows_step:
  assumes q: "\<And>a depth alpha beta color s r s'.
     negamax n E a depth alpha beta color st mt s = Some (r, s') \<Longrightarrow> alpha < beta \<Longrightarrow> windows_ok s
       \<Longrightarrow> windows_ok s'"
  shows "negamax_loop n E a depth ms v bm alpha beta color st mt s = Some (r, bm', al', s')
         \<Longrightarrow> alpha < beta \<Longrightarrow> windows_ok s \<Longrightarrow> windows_ok s'"
proof (induction ms arbitrary: v bm alpha s)
  case Nil
  then show ?case by simp
next
  case (Cons m ms)
  from Cons.prems(1) obtain r1 s3 where
    c: "negamax n E (nxt s) (depth - 1) (- beta) (- alpha) (- color) st mt (child_state E a m s)
        = Some (r1, s3)"
    by (auto simp: negamax_loop_Cons split: option.splits)
  from Cons.prems(2) have "- beta < - alpha" by simp
  with q[OF c] Cons.prems(3) have w3: "windows_ok s3" by simp
  let ?v1 = "if v < - r1 then - r1 else v"
  show ?case
  proof (cases "beta \<le> max alpha ?v1")
    case True
    with Cons.prems(1) c have "s' = s3" by (simp add: negamax_loop_Cons Let_def)
    with w3 show ?thesis by simp
  next
    case False
    with Cons.prems(1) c have l:
      "negamax_loop n E a depth ms ?v1 (if v < - r1 then Some m else bm) (max alpha ?v1) beta
         color st mt s3 = Some (r, bm', al', s')"
      by (simp add: negamax_loop_Cons Let_def)
    from False have "max alpha ?v1 < beta" by (simp add: not_le)
    with l show ?thesis using w3 by (rule Cons.IH)
  qed
qed

lemma negamax_search_windows_step:
  assumes l: "\<And>a depth ms v bm alpha beta color s r bm' al' s'.
     negamax_loop n E a depth ms v bm alpha beta color st mt s = Some (r, bm', al', s')
       \<Longrightarrow> alpha < beta \<Longrightarrow> windows_ok s \<Longrightarrow> windows_ok s'"
  shows "negamax_search n E a depth alpha beta color st mt tm s = Some (r, s') \<Longrightarrow> alpha < beta
         \<Longrightarrow> windows_ok s \<Longrightarrow> windows_ok s'"
proof -
  assume a: "negamax_search n E a depth alpha beta color st mt tm s = Some (r, s')"
    and ab: "alpha < beta" and w: "windows_ok s"
  show ?thesis
  proof (cases "depth = 0")
    case True
    with a have "quiescence n E a alpha beta color st mt s = Some (r, s')"
      by (simp add: negamax_search_def)
    then show ?thesis using ab w by (rule quiescence_windows)
  next
    case d: False
    show ?thesis
    proof (cases "legal_moves E (heap s a) = []")
      case True
      with a d w show ?thesis by (auto simp: negamax_search_def split: if_splits)
    next
      case False
      let ?om = "order_moves E (heap s a) (legal_moves E (heap s a)) tm s"
      from a d False obtain v bm' al' s3 where
        lp: "negamax_loop n E a depth (fst ?om) NegInf None alpha beta color st mt (snd ?om)
             = Some (v, bm', al', s3)"
        and s': "windows_ok s' = windows_ok s3"
        by (auto simp: negamax_search_def Let_def split: prod.splits option.splits)
      from w have "windows_ok (snd ?om)" by simp
      with l[OF lp ab] s' show ?thesis by simp
    qed
  qed
qed

lemma negamax_windows:
  "negamax n E a depth alpha beta color st mt s = Some (r, s') \<Longrightarrow> alpha < beta \<Longrightarrow> windows_ok s
     \<Longrightarrow> windows_ok s'"
proof (induction n arbitrary: a depth alpha beta color s r s')
  case 0
  then show ?case by simp
next
  case (Suc n)
  have lw: "negamax_loop n E a depth ms v bm alpha beta color st mt s = Some (r, bm', al', s')
       \<Longrightarrow> alpha < beta \<Longrightarrow> windows_ok s \<Longrightarrow> windows_ok s'"
    for a depth ms v bm alpha beta color s r bm' al' s'
    by (rule negamax_loop_windows_step[where n = n and E = E and st = st and mt = mt])
       (rule Suc.IH)
  have sw: "negamax_search n E a depth alpha beta color st mt tm s = Some (r, s') \<Longrightarrow> alpha < beta
         \<Longrightarrow> windows_ok s \<Longrightarrow> windows_ok s'" for a depth alpha beta color tm s r s'
    by (rule negamax_search_windows_step[where n = n and E = E and st = st and mt = mt])
       (rule lw)
  let ?s1 = "snd (time_up E st mt (s\<lparr>windows := windows s @ [(alpha, beta)]\<rparr>))"
  from Suc.prems(2,3) have w1: "windows_ok ?s1" by (rule windows_ok_entry)
  from Suc.prems(1) have "s' = ?s1 \<or>
     (\<exists>al be tm. tt_probe (tt s (fen E (heap s a))) depth alpha beta = Inr (al, be)
         \<and> negamax_search n E a depth al be color st mt tm ?s1 = Some (r, s'))"
    by (auto simp: negamax_Suc Let_def split: if_splits sum.splits)
  then show ?case
  proof
    assume "s' = ?s1"
    with w1 show ?thesis by simp
  next
    assume "\<exists>al be tm. tt_probe (tt s (fen E (heap s a))) depth alpha beta = Inr (al, be)
         \<and> negamax_search n E a depth al be color st mt tm ?s1 = Some (r, s')"
    then obtain al be tm where
      p: "tt_probe (tt s (fen E (heap s a))) depth alpha beta = Inr (al, be)" and
      ns: "negamax_search n E a depth al be color st mt tm ?s1 = Some (r, s')"
      by blast
    from p Suc.prems(2) have "al < be" by (rule tt_probe_window)
    with ns show ?thesis using w1 by (rule sw)
  qed
qed

lemma negamax_root_loop_windows:
  "negamax_root_loop n E a depth ms bs bm alpha beta color st mt s = Some (r, s') \<Longrightarrow> alpha < beta
     \<Longrightarrow> windows_ok s \<Longrightarrow> windows_ok s'"
proof (induction ms arbitrary: bs bm alpha s)
  case Nil
  then show ?case by simp
next
  case (Cons m ms)
  let ?s0 = "snd (time_up E st mt s)"
  from Cons.prems(3) have w0: "windows_ok ?s0" by simp
  show ?case
  proof (cases "fst (time_up E st mt s)")
    case True
    with Cons.prems(1) have "s' = ?s0" by (simp add: negamax_root_loop_Cons Let_def)
    with w0 show ?thesis by simp
  next
    case up: False
    from Cons.prems(1) up obtain r1 s3 where
      c: "negamax n E (nxt s) (depth - 1) (- beta) (- alpha) (- color) st mt (child_state E a m ?s0)
          = Some (r1, s3)"
      by (auto simp: negamax_root_loop_Cons Let_def split: option.splits)
    from Cons.prems(2) have "- beta < - alpha" by simp
    with negamax_windows[OF c] w0 have w3: "windows_ok s3" by simp
    show ?thesis
    proof (cases "beta \<le> max alpha (- r1)")
      case True
      with Cons.prems(1) up c have "s' = s3"
        by (simp add: negamax_root_loop_Cons Let_def)
      with w3 show ?thesis by simp
    next
      case False
      with Cons.prems(1) up c have l:
        "negamax_root_loop n E a depth ms (if bs < - r1 then - r1 else bs)
           (if bs < - r1 then Some m else bm) (max alpha (- r1)) beta color st mt s3 = Some (r, s')"
        by (simp add: negamax_root_loop_Cons Let_def)
      from False have "max alpha (- r1) < beta" by (simp add: not_le)
      with l show ?thesis using w3 by (rule Cons.IH)
    qed
  qed
qed

lemma negamax_root_windows:
  "negamax_root n E a depth st mt s = Some (r, s') \<Longrightarrow> windows_ok s \<Longrightarrow> windows_ok s'"
proof -
  assume a: "negamax_root n E a depth st mt s = Some (r, s')" and w: "windows_ok s"
  show ?thesis
  proof (cases "legal_moves E (heap s a) = []")
    case True
    with a w show ?thesis by (simp add: negamax_root_def)
  next
    case False
    let ?om = "order_moves E (heap s a) (legal_moves E (heap s a)) None s"
    from a False have l: "negamax_root_loop n E a depth (fst ?om) NegInf None NegInf PosInf
        (if turn E (heap s a) then 1 else - 1) st mt (snd ?om) = Some (r, s')"
      by (simp add: negamax_root_def Let_def split_beta)
    have "NegInf < PosInf" by simp
    moreover from w have "windows_ok (snd ?om)" by simp
    ultimately show ?thesis by (rule negamax_root_loop_windows[OF l])
  qed
qed

lemma deepening_loop_windows:
  "deepening_loop n E a ds bm bs st mt s = Some (r, s') \<Longrightarrow> windows_ok s \<Longrightarrow> windows_ok s'"
proof (induction ds arbitrary: bm bs s)
  case Nil
  then show ?case by simp
next
  case (Cons d ds)
  let ?s1 = "snd (time_up E st mt s)"
  from Cons.prems(2) have w1: "windows_ok ?s1" by simp
  show ?case
  proof (cases "fst (time_up E st mt s)")
    case True
    with Cons.prems(1) have "s' = ?s1" by (simp add: deepening_loop_Cons Let_def)
    with w1 show ?thesis by simp
  next
    case False
    with Cons.prems(1) obtain sc mv s2 where
      c: "negamax_root n E a d st mt ?s1 = Some ((sc, mv), s2)"
      by (auto simp: deepening_loop_Cons Let_def split: option.splits)
    from Cons.prems(1) False c have l:
      "deepening_loop n E a ds (if mv = None then bm else mv) (if mv = None then bs else sc)
         st mt s2 = Some (r, s')"
      by (simp add: deepening_loop_Cons Let_def)
    from negamax_root_windows[OF c w1] have "windows_ok s2" .
    with l show ?thesis by (rule Cons.IH)
  qed
qed

lemma search_best_move_windows:
  "search_best_move n E a depth max_time s = Some (r, s') \<Longrightarrow> windows_ok s \<Longrightarrow> windows_ok s'"
proof -
  assume a: "search_best_move n E a depth max_time s = Some (r, s')" and w: "windows_ok s"
  let ?s0 = "s\<lparr>clock := Suc (clock s)\<rparr>"
  from a obtain x s1 where
    d: "deepening_loop n E a [1..depth] None (if turn E (heap ?s0 a) then NegInf else PosInf)
          (now E (clock s)) max_time ?s0 = Some (x, s1)"
    and s': "s' = s1 \<or> s' = s1\<lparr>rnd := Suc (rnd s1)\<rparr>"
    by (auto simp: search_best_move_def Let_def split: option.splits if_splits)
  from w have "windows_ok ?s0" by simp
  with d have "windows_ok s1" by (rule deepening_loop_windows)
  with s' show ?thesis by auto
qed


text \<open>
  The cutoff: once \<open>alpha >= beta\<close> after a move, the loops return without looking at
  the moves that remain.
\<close>

lemma negamax_loop_cutoff:
  "negamax n E (nxt s) (depth - 1) (- beta) (- alpha) (- color) st mt (child_state E a m s)
     = Some (r1, s3)
   \<Longrightarrow> beta \<le> max alpha (if v < - r1 then - r1 else v)
   \<Longrightarrow> negamax_loop n E a depth (m # ms) v bm alpha beta color st mt s
       = Some (if v < - r1 then - r1 else v, if v < - r1 then Some m else bm,
               max alpha (if v < - r1 then - r1 else v), s3)"
  by (simp add: negamax_loop_Cons Let_def)

lemma quiescence_loop_cutoff:
  "quiescence n E (nxt s) (- beta) (- alpha) (- color) st mt (child_state E a m s) = Some (r1, s3)
   \<Longrightarrow> beta \<le> - r1
   \<Longrightarrow> quiescence_loop n E a (m # ms) alpha beta color st mt s = Some (- r1, s3)"
  by (simp add: quiescence_loop_Cons)

text \<open>
  Claim C4. The state records the window of every call of \<open>_negamax\<close> and
  \<open>_quiescence\<close>. If every window recorded before a root search is proper
  (\<open>alpha < beta\<close>), so is every window recorded when it returns: every call reached from
  \<open>_negamax_root\<close>, and so from \<open>search_best_move\<close>, is entered with
  \<open>alpha < beta\<close>. The same holds for a call of \<open>_negamax\<close> or \<open>_quiescence\<close> that is
  itself entered with \<open>alpha < beta\<close>.
\<close>

theorem every_call_has_proper_window:
  assumes "windows_ok s"
  shows "(negamax_root n E a depth st mt s = Some (rr, s') \<longrightarrow> windows_ok s')
     \<and> (search_best_move n E a depth max_time s = Some (mv, s') \<longrightarrow> windows_ok s')
     \<and> (alpha < beta \<and> negamax n E a depth alpha beta color st mt s = Some (r, s')
          \<longrightarrow> windows_ok s')
     \<and> (alpha < beta \<and> quiescence n E a alpha beta color st mt s = Some (r, s')
          \<longrightarrow> windows_ok s')"
  using assms negamax_root_windows[of n E a depth st mt s rr s']
    search_best_move_windows[of n E a depth max_time s mv s']
    negamax_windows[of n E a depth alpha beta color st mt s r s']
    quiescence_windows[of n E a alpha beta color st mt s r s']
  by simp

lemma toy_root_run:
  "map_option (\<lambda>(r, s'). (r, windows s')) (negamax_root 5 toy 0 2 0 None toy_state) =
     Some ((Fin (- 500), Some Shuffle),
           [(NegInf, PosInf), (NegInf, Fin 100000), (Fin (- 100000), PosInf),
            (Fin (- 100000), PosInf)])"
  by (simp add: run_defs)

theorem every_call_has_proper_window_witness:
  "\<exists>s'. windows_ok toy_state
        \<and> negamax_root 5 toy 0 2 0 None toy_state = Some ((Fin (- 500), Some Shuffle), s')
        \<and> windows s' = [(NegInf, PosInf), (NegInf, Fin 100000), (Fin (- 100000), PosInf),
                         (Fin (- 100000), PosInf)]
        \<and> windows_ok s'"
proof -
  have w: "windows_ok toy_state" by (simp add: windows_ok_def)
  from toy_root_run obtain s' where
    r: "negamax_root 5 toy 0 2 0 None toy_state = Some ((Fin (- 500), Some Shuffle), s')"
    and ws: "windows s' = [(NegInf, PosInf), (NegInf, Fin 100000), (Fin (- 100000), PosInf),
                         (Fin (- 100000), PosInf)]"
    by auto
  from every_call_has_proper_window[OF w, of 5 toy 0 2 0 None "(Fin (- 500), Some Shuffle)" s'] r
  have "windows_ok s'" by simp
  with w r ws show ?thesis by blast
qed

section \<open>Quiescence terminates\<close>

lemma quiescence_loop_total_step:
  assumes q: "\<And>a alpha beta color s. a < nxt s \<Longrightarrow> piece_count E (heap s a) < n
     \<Longrightarrow> \<exists>r s'. quiescence n E a alpha beta color st mt s = Some (r, s')"
  shows "a < nxt s \<Longrightarrow> \<forall>m \<in> set ms. piece_count E (push E (heap s a) m) < n
     \<Longrightarrow> \<exists>r s'. quiescence_loop n E a ms alpha beta color st mt s = Some (r, s')"
proof (induction ms arbitrary: alpha s)
  case Nil
  then show ?case by simp
next
  case (Cons m ms)
  have "nxt s < nxt (child_state E a m s)" by simp
  moreover from Cons.prems(2) have "piece_count E (heap (child_state E a m s) (nxt s)) < n"
    by simp
  ultimately obtain r1 s3 where
    c: "quiescence n E (nxt s) (- beta) (- alpha) (- color) st mt (child_state E a m s) = Some (r1, s3)"
    using q by blast
  have p: "preserves s s3"
    by (rule preserves_trans[OF preserves_child quiescence_preserves[OF c]])
  show ?case
  proof (cases "beta \<le> - r1")
    case True
    with c show ?thesis by (simp add: quiescence_loop_Cons)
  next
    case False
    from p Cons.prems(1) have "a < nxt s3" by (rule preserves_nxt)
    moreover from preserves_heap[OF p Cons.prems(1)] Cons.prems(2)
    have "\<forall>m \<in> set ms. piece_count E (push E (heap s3 a) m) < n" by simp
    ultimately have "\<exists>r s'. quiescence_loop n E a ms (if alpha < - r1 then - r1 else alpha) beta
        color st mt s3 = Some (r, s')"
      by (rule Cons.IH)
    with c False show ?thesis by (simp add: quiescence_loop_Cons)
  qed
qed

lemma quiescence_total:
  assumes cs: "captures_shrink E"
  shows "a < nxt s \<Longrightarrow> piece_count E (heap s a) < n
     \<Longrightarrow> \<exists>r s'. quiescence n E a alpha beta color st mt s = Some (r, s')"
proof (induction n arbitrary: a alpha beta color s)
  case 0
  then show ?case by simp
next
  case (Suc n)
  have lt: "a < nxt s \<Longrightarrow> \<forall>m \<in> set ms. piece_count E (push E (heap s a) m) < n
     \<Longrightarrow> \<exists>r s'. quiescence_loop n E a ms alpha beta color st mt s = Some (r, s')"
    for a ms alpha beta color s
    by (rule quiescence_loop_total_step[where n = n and E = E and st = st and mt = mt])
       (rule Suc.IH)
  let ?s1 = "snd (time_up E st mt (s\<lparr>windows := windows s @ [(alpha, beta)]\<rparr>))"
  let ?ms = "filter (is_capture E (heap s a)) (legal_moves E (heap s a))"
  have h: "heap ?s1 = heap s" "nxt ?s1 = nxt s" by (simp_all add: time_up_fields)
  from Suc.prems(1) h have a1: "a < nxt ?s1" by simp
  have "\<forall>m \<in> set ?ms. piece_count E (push E (heap s a) m) < n"
  proof
    fix m assume "m \<in> set ?ms"
    then have "m \<in> set (legal_moves E (heap s a))" "is_capture E (heap s a) m" by simp_all
    with cs have "piece_count E (push E (heap s a) m) < piece_count E (heap s a)"
      by (simp add: captures_shrink_def)
    with Suc.prems(2) show "piece_count E (push E (heap s a) m) < n" by simp
  qed
  with h have "\<forall>m \<in> set ?ms. piece_count E (push E (heap ?s1 a) m) < n" by simp
  from lt[OF a1 this] show ?case
    by (simp add: quiescence_Suc Let_def)
qed

text \<open>
  Claim C8. \<open>_quiescence\<close> has no depth limit of its own, and it returns on every
  position all the same: when every legal capture takes a piece off the board, a
  nesting of calls one deeper than the number of pieces on the board is never used up,
  so the recursion is as deep as the captures that remain at most.
\<close>

theorem quiescence_terminates:
  "captures_shrink E \<Longrightarrow> a < nxt s \<Longrightarrow> piece_count E (heap s a) < n
     \<Longrightarrow> \<exists>r s'. quiescence n E a alpha beta color st mt s = Some (r, s')"
  by (rule quiescence_total)

lemma toy_piece_count [simp]:
  "piece_count toy Start = 4" "piece_count toy Quiet = 4" "piece_count toy Mated = 4"
  "piece_count toy Taken = 3"
  by (simp_all add: piece_count_def toy_def PIECE_VALUES_def piece_defs)

lemma toy_captures_shrink: "captures_shrink toy"
  by (auto simp: captures_shrink_def split: toy_pos.splits)

lemma toy_never_grows: "never_grows toy"
proof -
  have "piece_count toy (push toy b m) \<le> piece_count toy b" for b m
    by (cases b; cases m) simp_all
  then show ?thesis by (simp add: never_grows_def)
qed

theorem quiescence_terminates_witness:
  "captures_shrink toy \<and> 0 < nxt quiet_state \<and> piece_count toy (heap quiet_state 0) < 5
   \<and> (\<exists>r s'. quiescence 5 toy 0 NegInf PosInf (- 1) 0 None quiet_state = Some (r, s'))"
proof -
  have h: "0 < nxt quiet_state" "piece_count toy (heap quiet_state 0) < 5"
    by (simp_all add: quiet_state_def)
  from quiescence_terminates[OF toy_captures_shrink h] toy_captures_shrink h
  show ?thesis by blast
qed

section \<open>The search returns, and returns a legal move\<close>

lemma negamax_loop_total_step:
  assumes q: "\<And>a depth alpha beta color s. 0 \<le> depth \<Longrightarrow> a < nxt s
     \<Longrightarrow> nat depth + piece_count E (heap s a) + 1 < n
     \<Longrightarrow> \<exists>r s'. negamax n E a depth alpha beta color st mt s = Some (r, s')"
    and ng: "never_grows E"
  shows "1 \<le> depth \<Longrightarrow> a < nxt s \<Longrightarrow> nat (depth - 1) + piece_count E (heap s a) + 1 < n
     \<Longrightarrow> \<exists>res. negamax_loop n E a depth ms v bm alpha beta color st mt s = Some res"
proof (induction ms arbitrary: v bm alpha s)
  case Nil
  then show ?case by simp
next
  case (Cons m ms)
  from Cons.prems(1) have "0 \<le> depth - 1" by simp
  moreover have "nxt s < nxt (child_state E a m s)" by simp
  moreover have "nat (depth - 1) + piece_count E (heap (child_state E a m s) (nxt s)) + 1 < n"
  proof -
    from ng have "piece_count E (push E (heap s a) m) \<le> piece_count E (heap s a)"
      by (simp add: never_grows_def)
    with Cons.prems(3) show ?thesis by simp
  qed
  ultimately obtain r1 s3 where
    c: "negamax n E (nxt s) (depth - 1) (- beta) (- alpha) (- color) st mt (child_state E a m s)
        = Some (r1, s3)"
    using q by blast
  have p: "preserves s s3"
    by (rule preserves_trans[OF preserves_child negamax_preserves[OF c]])
  let ?v1 = "if v < - r1 then - r1 else v"
  show ?case
  proof (cases "beta \<le> max alpha ?v1")
    case True
    with c show ?thesis by (simp add: negamax_loop_Cons Let_def)
  next
    case False
    from p Cons.prems(2) have "a < nxt s3" by (rule preserves_nxt)
    moreover from preserves_heap[OF p Cons.prems(2)] Cons.prems(3)
    have "nat (depth - 1) + piece_count E (heap s3 a) + 1 < n" by simp
    ultimately have "\<exists>res. negamax_loop n E a depth ms ?v1 (if v < - r1 then Some m else bm)
        (max alpha ?v1) beta color st mt s3 = Some res"
      by (rule Cons.IH[OF Cons.prems(1)])
    with c False show ?thesis by (simp add: negamax_loop_Cons Let_def)
  qed
qed

lemma negamax_total:
  assumes cs: "captures_shrink E" and ng: "never_grows E"
  shows "0 \<le> depth \<Longrightarrow> a < nxt s \<Longrightarrow> nat depth + piece_count E (heap s a) + 1 < n
     \<Longrightarrow> \<exists>r s'. negamax n E a depth alpha beta color st mt s = Some (r, s')"
proof (induction n arbitrary: a depth alpha beta color s)
  case 0
  then show ?case by simp
next
  case (Suc n)
  have lt: "1 \<le> depth \<Longrightarrow> a < nxt s \<Longrightarrow> nat (depth - 1) + piece_count E (heap s a) + 1 < n
     \<Longrightarrow> \<exists>res. negamax_loop n E a depth ms v bm alpha beta color st mt s = Some res"
    for a depth ms v bm alpha beta color s
    by (rule negamax_loop_total_step[where n = n and E = E and st = st and mt = mt, OF _ ng])
       (rule Suc.IH)
  let ?s1 = "snd (time_up E st mt (s\<lparr>windows := windows s @ [(alpha, beta)]\<rparr>))"
  have h: "heap ?s1 = heap s" "nxt ?s1 = nxt s" by (simp_all add: time_up_fields)
  have "\<exists>r s'. negamax_search n E a depth al be color st mt tm ?s1 = Some (r, s')" for al be tm
  proof (cases "depth = 0")
    case True
    from Suc.prems(2) h have "a < nxt ?s1" by simp
    moreover from Suc.prems(3) True h have "piece_count E (heap ?s1 a) < n" by simp
    ultimately have "\<exists>r s'. quiescence n E a al be color st mt ?s1 = Some (r, s')"
      by (rule quiescence_total[OF cs])
    with True show ?thesis by (simp add: negamax_search_def)
  next
    case False
    with Suc.prems(1) have d: "1 \<le> depth" by simp
    let ?om = "order_moves E (heap ?s1 a) (legal_moves E (heap ?s1 a)) tm ?s1"
    have ho: "heap (snd ?om) = heap s" "nxt (snd ?om) = nxt s"
      by (simp_all add: order_moves_fields h)
    from Suc.prems(2) ho have "a < nxt (snd ?om)" by simp
    moreover from Suc.prems(3) d ho have "nat (depth - 1) + piece_count E (heap (snd ?om) a) + 1 < n"
      by simp
    ultimately obtain res where
      "negamax_loop n E a depth (fst ?om) NegInf None al be color st mt (snd ?om) = Some res"
      using lt[OF d] by blast
    with False show ?thesis
      by (cases res) (simp add: negamax_search_def Let_def split_beta)
  qed
  then show ?case
    by (simp add: negamax_Suc Let_def split: sum.split)
qed


lemma shuffle_steps_mset: "i < length x \<Longrightarrow> mset (shuffle_steps E k i x) = mset x"
proof (induction i arbitrary: k x)
  case 0
  then show ?case by simp
next
  case (Suc i)
  let ?j = "randbelow E k (Suc i + 1) mod (Suc i + 1)"
  have "?j < Suc (Suc i)" by simp
  with Suc.prems have j: "?j < length x" by linarith
  let ?x = "x[Suc i := x ! ?j, ?j := x ! Suc i]"
  from Suc.prems have "i < length ?x" by simp
  then have "mset (shuffle_steps E (Suc k) i ?x) = mset ?x" by (rule Suc.IH)
  also from Suc.prems j have "mset ?x = mset x" by (simp add: mset_swap)
  finally show ?case by (simp add: Let_def)
qed

lemma shuffle_set: "set (fst (shuffle E x s)) = set x"
proof (cases x)
  case Nil
  then show ?thesis by (simp add: shuffle_def)
next
  case (Cons y ys)
  then have "length x - 1 < length x" by simp
  then have "mset (shuffle_steps E (rnd s) (length x - 1) x) = mset x"
    by (rule shuffle_steps_mset)
  then have "set (shuffle_steps E (rnd s) (length x - 1) x) = set x"
    by (rule mset_eq_setD)
  then show ?thesis by (simp add: shuffle_def)
qed

lemma order_moves_set: "set (fst (order_moves E b ms None s)) = set ms"
proof -
  have "set (fst (shuffle E (filter (is_capture E b) ms) s))
        \<union> set (fst (shuffle E (filter (\<lambda>m. \<not> is_capture E b m) ms)
                        (snd (shuffle E (filter (is_capture E b) ms) s)))) = set ms"
    by (auto simp: shuffle_set)
  then show ?thesis by (simp add: order_moves_def Let_def split_beta)
qed

lemma negamax_root_loop_total:
  assumes cs: "captures_shrink E" and ng: "never_grows E"
  shows "1 \<le> depth \<Longrightarrow> a < nxt s \<Longrightarrow> nat (depth - 1) + piece_count E (heap s a) + 1 < n
     \<Longrightarrow> \<exists>res. negamax_root_loop n E a depth ms bs bm alpha beta color st mt s = Some res"
proof (induction ms arbitrary: bs bm alpha s)
  case Nil
  then show ?case by simp
next
  case (Cons m ms)
  let ?s0 = "snd (time_up E st mt s)"
  have h: "heap ?s0 = heap s" "nxt ?s0 = nxt s" by (simp_all add: time_up_fields)
  show ?case
  proof (cases "fst (time_up E st mt s)")
    case True
    then show ?thesis by (simp add: negamax_root_loop_Cons Let_def)
  next
    case up: False
    from Cons.prems(1) have "0 \<le> depth - 1" by simp
    moreover have "nxt s < nxt (child_state E a m ?s0)" by (simp add: h)
    moreover have "nat (depth - 1) + piece_count E (heap (child_state E a m ?s0) (nxt s)) + 1 < n"
    proof -
      from ng have "piece_count E (push E (heap s a) m) \<le> piece_count E (heap s a)"
        by (simp add: never_grows_def)
      moreover have "heap (child_state E a m ?s0) (nxt s) = push E (heap s a) m"
        using child_state_fields(2)[of E a m ?s0] by (simp add: h)
      ultimately show ?thesis using Cons.prems(3) by simp
    qed
    ultimately obtain r1 s3 where
      c: "negamax n E (nxt s) (depth - 1) (- beta) (- alpha) (- color) st mt (child_state E a m ?s0)
          = Some (r1, s3)"
      using negamax_total[OF cs ng] by blast
    have p: "preserves s s3"
      by (rule preserves_trans[OF time_up_preserves
            preserves_trans[OF preserves_child negamax_preserves[OF c]]])
    show ?thesis
    proof (cases "beta \<le> max alpha (- r1)")
      case True
      with up c show ?thesis by (simp add: negamax_root_loop_Cons Let_def)
    next
      case False
      from p Cons.prems(2) have "a < nxt s3" by (rule preserves_nxt)
      moreover from preserves_heap[OF p Cons.prems(2)] Cons.prems(3)
      have "nat (depth - 1) + piece_count E (heap s3 a) + 1 < n" by simp
      ultimately have "\<exists>res. negamax_root_loop n E a depth ms (if bs < - r1 then - r1 else bs)
           (if bs < - r1 then Some m else bm) (max alpha (- r1)) beta color st mt s3 = Some res"
        by (rule Cons.IH[OF Cons.prems(1)])
      with up c False show ?thesis by (simp add: negamax_root_loop_Cons Let_def)
    qed
  qed
qed

lemma negamax_root_loop_move:
  "negamax_root_loop n E a depth ms bs bm alpha beta color st mt s = Some ((bs', bm'), s')
     \<Longrightarrow> bm' = bm \<or> (\<exists>m \<in> set ms. bm' = Some m)"
proof (induction ms arbitrary: bs bm alpha s)
  case Nil
  then show ?case by simp
next
  case (Cons m ms)
  let ?s0 = "snd (time_up E st mt s)"
  show ?case
  proof (cases "fst (time_up E st mt s)")
    case True
    with Cons.prems show ?thesis by (simp add: negamax_root_loop_Cons Let_def)
  next
    case up: False
    from Cons.prems up obtain r1 s3 where
      c: "negamax n E (nxt s) (depth - 1) (- beta) (- alpha) (- color) st mt (child_state E a m ?s0)
          = Some (r1, s3)"
      by (auto simp: negamax_root_loop_Cons Let_def split: option.splits)
    show ?thesis
    proof (cases "beta \<le> max alpha (- r1)")
      case True
      with Cons.prems up c show ?thesis
        by (auto simp: negamax_root_loop_Cons Let_def split: if_splits)
    next
      case False
      with Cons.prems up c have
        "negamax_root_loop n E a depth ms (if bs < - r1 then - r1 else bs)
           (if bs < - r1 then Some m else bm) (max alpha (- r1)) beta color st mt s3
         = Some ((bs', bm'), s')"
        by (simp add: negamax_root_loop_Cons Let_def)
      from Cons.IH[OF this] show ?thesis by (auto split: if_splits)
    qed
  qed
qed

lemma negamax_root_total:
  assumes cs: "captures_shrink E" and ng: "never_grows E"
  shows "1 \<le> depth \<Longrightarrow> a < nxt s \<Longrightarrow> nat (depth - 1) + piece_count E (heap s a) + 1 < n
     \<Longrightarrow> \<exists>res. negamax_root n E a depth st mt s = Some res"
proof -
  assume d: "1 \<le> depth" and a: "a < nxt s"
    and n: "nat (depth - 1) + piece_count E (heap s a) + 1 < n"
  let ?om = "order_moves E (heap s a) (legal_moves E (heap s a)) None s"
  have ho: "heap (snd ?om) = heap s" "nxt (snd ?om) = nxt s"
    by (simp_all add: order_moves_fields)
  from a ho have "a < nxt (snd ?om)" by simp
  moreover from n ho have "nat (depth - 1) + piece_count E (heap (snd ?om) a) + 1 < n" by simp
  ultimately have "\<exists>res. negamax_root_loop n E a depth (fst ?om) NegInf None NegInf PosInf
      (if turn E (heap s a) then 1 else - 1) st mt (snd ?om) = Some res"
    by (rule negamax_root_loop_total[OF cs ng d])
  then show ?thesis by (simp add: negamax_root_def Let_def split_beta)
qed

lemma negamax_root_move:
  "negamax_root n E a depth st mt s = Some ((sc, mv), s')
     \<Longrightarrow> mv = None \<or> (\<exists>m \<in> set (legal_moves E (heap s a)). mv = Some m)"
proof (cases "legal_moves E (heap s a) = []")
  case True
  assume "negamax_root n E a depth st mt s = Some ((sc, mv), s')"
  with True show ?thesis by (simp add: negamax_root_def)
next
  case False
  assume a: "negamax_root n E a depth st mt s = Some ((sc, mv), s')"
  let ?om = "order_moves E (heap s a) (legal_moves E (heap s a)) None s"
  from a False have "negamax_root_loop n E a depth (fst ?om) NegInf None NegInf PosInf
      (if turn E (heap s a) then 1 else - 1) st mt (snd ?om) = Some ((sc, mv), s')"
    by (simp add: negamax_root_def Let_def split_beta)
  from negamax_root_loop_move[OF this] show ?thesis by (simp add: order_moves_set)
qed

lemma deepening_loop_total:
  assumes cs: "captures_shrink E" and ng: "never_grows E"
  shows "\<forall>d \<in> set ds. 1 \<le> d \<and> nat (d - 1) + piece_count E (heap s a) + 1 < n \<Longrightarrow> a < nxt s
     \<Longrightarrow> \<exists>res. deepening_loop n E a ds bm bs st mt s = Some res"
proof (induction ds arbitrary: bm bs s)
  case Nil
  then show ?case by simp
next
  case (Cons d ds)
  let ?s1 = "snd (time_up E st mt s)"
  have h: "heap ?s1 = heap s" "nxt ?s1 = nxt s" by (simp_all add: time_up_fields)
  show ?case
  proof (cases "fst (time_up E st mt s)")
    case True
    then show ?thesis by (simp add: deepening_loop_Cons Let_def)
  next
    case False
    from Cons.prems(1) have d: "1 \<le> d" by simp
    from Cons.prems(2) h have a1: "a < nxt ?s1" by simp
    from Cons.prems(1) h have "nat (d - 1) + piece_count E (heap ?s1 a) + 1 < n" by simp
    with negamax_root_total[OF cs ng d a1] obtain sc mv s2 where
      c: "negamax_root n E a d st mt ?s1 = Some ((sc, mv), s2)"
      by fastforce
    have p: "preserves s s2"
      by (rule preserves_trans[OF time_up_preserves negamax_root_preserves[OF c]])
    from preserves_heap[OF p Cons.prems(2)] Cons.prems(1)
    have "\<forall>d \<in> set ds. 1 \<le> d \<and> nat (d - 1) + piece_count E (heap s2 a) + 1 < n" by simp
    moreover from p Cons.prems(2) have "a < nxt s2" by (rule preserves_nxt)
    ultimately have "\<exists>res. deepening_loop n E a ds (if mv = None then bm else mv)
        (if mv = None then bs else sc) st mt s2 = Some res"
      by (rule Cons.IH)
    with False c show ?thesis by (simp add: deepening_loop_Cons Let_def)
  qed
qed

lemma deepening_loop_move:
  "deepening_loop n E a ds bm bs st mt s = Some ((bm', bs'), s') \<Longrightarrow> a < nxt s
     \<Longrightarrow> bm' = bm \<or> (\<exists>m \<in> set (legal_moves E (heap s a)). bm' = Some m)"
proof (induction ds arbitrary: bm bs s)
  case Nil
  then show ?case by simp
next
  case (Cons d ds)
  let ?s1 = "snd (time_up E st mt s)"
  have h: "heap ?s1 = heap s" "nxt ?s1 = nxt s" by (simp_all add: time_up_fields)
  show ?case
  proof (cases "fst (time_up E st mt s)")
    case True
    with Cons.prems(1) show ?thesis by (simp add: deepening_loop_Cons Let_def)
  next
    case False
    with Cons.prems(1) obtain sc mv s2 where
      c: "negamax_root n E a d st mt ?s1 = Some ((sc, mv), s2)"
      by (auto simp: deepening_loop_Cons Let_def split: option.splits)
    from Cons.prems(1) False c have l:
      "deepening_loop n E a ds (if mv = None then bm else mv) (if mv = None then bs else sc)
         st mt s2 = Some ((bm', bs'), s')"
      by (simp add: deepening_loop_Cons Let_def)
    have p: "preserves s s2"
      by (rule preserves_trans[OF time_up_preserves negamax_root_preserves[OF c]])
    from p Cons.prems(2) have "a < nxt s2" by (rule preserves_nxt)
    from Cons.IH[OF l this] preserves_heap[OF p Cons.prems(2)]
    have "bm' = (if mv = None then bm else mv)
          \<or> (\<exists>m \<in> set (legal_moves E (heap s a)). bm' = Some m)"
      by simp
    with negamax_root_move[OF c] h show ?thesis by (auto split: if_splits)
  qed
qed


text \<open>
  Claim C1. When every legal capture takes a piece off the board, no move adds one, the
  board \<open>a\<close> exists and the allowed nesting of calls exceeds the depth plus the number
  of pieces, \<open>search_best_move\<close> returns (it does not fail), what it returns is \<open>None\<close>
  exactly when the position has no legal move, and a move it returns is one of the legal
  moves of the position: the best move of the last completed depth, or the element of
  the list of legal moves at a random index when no depth gave one. (That the random
  index is uniformly distributed is not part of the statement: the random source is an
  arbitrary sequence of draws here.)
\<close>

theorem search_best_move_returns_legal_move:
  assumes cs: "captures_shrink E" and ng: "never_grows E" and a: "a < nxt s"
    and n: "nat depth + piece_count E (heap s a) < n"
  shows "\<exists>mv s'. search_best_move n E a depth max_time s = Some (mv, s')
           \<and> (mv = None \<longleftrightarrow> legal_moves E (heap s a) = [])
           \<and> (\<forall>m. mv = Some m \<longrightarrow> m \<in> set (legal_moves E (heap s a)))"
proof -
  let ?s0 = "s\<lparr>clock := Suc (clock s)\<rparr>"
  let ?bs = "if turn E (heap ?s0 a) then NegInf else PosInf"
  let ?legal = "legal_moves E (heap s a)"
  have a0: "a < nxt ?s0" using a by simp
  have "\<forall>d \<in> set [1..depth]. 1 \<le> d \<and> nat (d - 1) + piece_count E (heap ?s0 a) + 1 < n"
  proof
    fix d assume "d \<in> set [1..depth]"
    then have d: "1 \<le> d" "d \<le> depth" by simp_all
    then have "nat (d - 1) + 1 \<le> nat depth" by simp
    with n d show "1 \<le> d \<and> nat (d - 1) + piece_count E (heap ?s0 a) + 1 < n" by simp
  qed
  from deepening_loop_total[OF cs ng this a0] obtain bm' bs' s1 where
    d: "deepening_loop n E a [1..depth] None ?bs (now E (clock s)) max_time ?s0
        = Some ((bm', bs'), s1)"
    by fastforce
  from deepening_loop_move[OF d a0] have
    bm: "bm' = None \<or> (\<exists>m \<in> set ?legal. bm' = Some m)" by simp
  from deepening_loop_preserves[OF d] have "preserves s s1" by simp
  from preserves_heap[OF this a] have h1: "heap s1 a = heap s a" .
  show ?thesis
  proof (cases bm')
    case (Some m)
    with bm have "m \<in> set ?legal" by simp
    moreover then have "?legal \<noteq> []" by auto
    moreover from d Some have "search_best_move n E a depth max_time s = Some (Some m, s1)"
      by (simp add: search_best_move_def Let_def)
    ultimately show ?thesis by simp
  next
    case None
    show ?thesis
    proof (cases "?legal = []")
      case True
      with d None h1 have "search_best_move n E a depth max_time s = Some (None, s1)"
        by (simp add: search_best_move_def Let_def)
      with True show ?thesis by simp
    next
      case False
      let ?m = "?legal ! (randbelow E (rnd s1) (length ?legal) mod length ?legal)"
      from False have "?m \<in> set ?legal" by simp
      moreover from d None h1 False have
        "search_best_move n E a depth max_time s = Some (Some ?m, s1\<lparr>rnd := Suc (rnd s1)\<rparr>)"
        by (simp add: search_best_move_def Let_def)
      ultimately show ?thesis using False by simp
    qed
  qed
qed

theorem search_best_move_returns_legal_move_witness:
  "captures_shrink toy \<and> never_grows toy \<and> 0 < nxt toy_state
   \<and> nat 2 + piece_count toy (heap toy_state 0) < 7
   \<and> (\<exists>m s'. search_best_move 7 toy 0 2 None toy_state = Some (Some m, s')
          \<and> m \<in> set (legal_moves toy (heap toy_state 0)))"
proof -
  have h: "0 < nxt toy_state" "nat 2 + piece_count toy (heap toy_state 0) < 7" by simp_all
  from search_best_move_returns_legal_move[OF toy_captures_shrink toy_never_grows h, of None]
  obtain mv s' where r: "search_best_move 7 toy 0 2 None toy_state = Some (mv, s')"
    and "mv \<noteq> None" and m: "\<forall>m. mv = Some m \<longrightarrow> m \<in> set (legal_moves toy (heap toy_state 0))"
    by auto
  then obtain m where "mv = Some m" by auto
  with r m have "\<exists>m s'. search_best_move 7 toy 0 2 None toy_state = Some (Some m, s')
          \<and> m \<in> set (legal_moves toy (heap toy_state 0))" by blast
  with toy_captures_shrink toy_never_grows h show ?thesis by blast
qed

section \<open>The transposition probe\<close>

text \<open>
  Claim C5, as amended. While the deadline has not passed, a cached entry changes the
  window of \<open>_negamax\<close> or makes it return early only when its stored depth is at
  least the depth requested: then an \<open>EXACT\<close> entry's score is returned directly, a
  \<open>LOWERBOUND\<close> entry raises \<open>alpha\<close> to \<open>max(alpha, score)\<close>, an \<open>UPPERBOUND\<close>
  entry lowers \<open>beta\<close> to \<open>min(beta, score)\<close>, and the stored score is returned
  without further search exactly when the tightened window has \<open>alpha >= beta\<close>;
  otherwise the node is searched with the tightened window. An entry of insufficient
  depth leaves the window as it is and causes no early return; its \<open>best_move\<close>, like
  that of any entry found, is the move the loop tries first.
\<close>

theorem negamax_uses_cached_entry:
  assumes "\<not> fst (time_up E st mt (s\<lparr>windows := windows s @ [(alpha, beta)]\<rparr>))"
  shows "negamax (Suc n) E a depth alpha beta color st mt s =
     (let s1 = snd (time_up E st mt (s\<lparr>windows := windows s @ [(alpha, beta)]\<rparr>))
      in case tt s (fen E (heap s a)) of
           None \<Rightarrow> negamax_search n E a depth alpha beta color st mt None s1
         | Some e \<Rightarrow>
             if tt_depth e < depth
             then negamax_search n E a depth alpha beta color st mt (tt_best_move e) s1
             else (case tt_node_type e of
                     EXACT \<Rightarrow> Some (tt_score e, s1)
                   | LOWERBOUND \<Rightarrow>
                       if beta \<le> max alpha (tt_score e) then Some (tt_score e, s1)
                       else negamax_search n E a depth (max alpha (tt_score e)) beta color st mt
                              (tt_best_move e) s1
                   | UPPERBOUND \<Rightarrow>
                       if min beta (tt_score e) \<le> alpha then Some (tt_score e, s1)
                       else negamax_search n E a depth alpha (min beta (tt_score e)) color st mt
                              (tt_best_move e) s1))"
proof (cases "tt s (fen E (heap s a))")
  case None
  with assms show ?thesis by (simp add: negamax_Suc tt_probe_def Let_def)
next
  case (Some e)
  show ?thesis
  proof (cases "tt_depth e < depth")
    case True
    with assms Some show ?thesis by (simp add: negamax_Suc tt_probe_def Let_def)
  next
    case False
    with assms Some show ?thesis
      by (cases "tt_node_type e") (simp_all add: negamax_Suc tt_probe_def Let_def not_less)
  qed
qed

theorem negamax_uses_cached_entry_witness:
  "\<not> fst (time_up toy 0 None (deep_state\<lparr>windows := windows deep_state @ [(NegInf, Fin 10)]\<rparr>))
   \<and> negamax (Suc 0) toy 0 2 NegInf (Fin 10) 1 0 None deep_state
       = Some (Fin 50, deep_state\<lparr>windows := [(NegInf, Fin 10)]\<rparr>)"
proof -
  have h: "\<not> fst (time_up toy 0 None (deep_state\<lparr>windows := windows deep_state @ [(NegInf, Fin 10)]\<rparr>))"
    by simp
  from negamax_uses_cached_entry[OF h, of 0 0 2 1] h show ?thesis
    by (simp add: deep_state_def)
qed

lemma shallow_entry_is_stored:
  "map_option (\<lambda>(v, s'). tt s' (fen toy Start)) (negamax 5 toy 0 2 NegInf PosInf 1 0 None toy_state)
     = Some (tt shallow_state (fen toy Start))"
  by (simp add: run_defs shallow_state_def)

text \<open>
  The claim as stated says that an entry of insufficient depth has no effect on the
  node's result. It has: from \<open>Start\<close> at depth 3 with the window
  \<open>(-inf, -200000)\<close>, the node returns -100000 with an empty table and 0 when the
  table holds the entry of depth 2 for the position, whose \<open>best_move\<close> is
  \<open>Shuffle\<close>: that move is then tried first, and the first move cuts off.
\<close>

theorem shallow_entry_changes_result:
  "map_option fst (negamax 6 toy 0 3 NegInf (Fin (- 200000)) 1 0 None toy_state)
     = Some (Fin (- 100000))
   \<and> map_option fst (negamax 6 toy 0 3 NegInf (Fin (- 200000)) 1 0 None shallow_state)
     = Some (Fin 0)"
  by (simp add: run_defs shallow_state_def)

section \<open>The score of a checkmated side\<close>

text \<open>
  With no legal move, no deadline passed, no cached entry and a depth other than 0,
  \<open>_negamax\<close> returns \<open>-color * MATE_SCORE\<close> in checkmate and 0 otherwise.
\<close>

lemma negamax_without_moves:
  assumes "\<not> fst (time_up E st mt (s\<lparr>windows := windows s @ [(alpha, beta)]\<rparr>))"
    and "tt s (fen E (heap s a)) = None" and "depth \<noteq> 0" and "legal_moves E (heap s a) = []"
  shows "map_option fst (negamax (Suc n) E a depth alpha beta color st mt s)
         = Some (if is_checkmate E (heap s a) then Fin (- color * MATE_SCORE) else Fin 0)"
  using assms by (simp add: negamax_Suc tt_probe_def negamax_search_def Let_def time_up_fields)

text \<open>
  Claim C2 fails on the code. In \<open>Mated\<close> Black is to move, has no legal move and is
  in check. Called with \<open>color = -1\<close> (Black's perspective) and depth 1,
  \<open>_negamax\<close> returns \<open>+MATE_SCORE\<close>, the best score there is for the side to move,
  where the claim (and the comment in the code) wants the worst; with \<open>color = +1\<close> the
  same call returns \<open>-MATE_SCORE\<close>. The parent negates the score, so White sees the
  mating move as the worst one: at depth 2 \<open>search_best_move\<close> plays \<open>Shuffle\<close>,
  which loses the queen, and not \<open>Mate\<close>.
\<close>

theorem checkmated_black_scores_plus_mate:
  "legal_moves toy (heap mated_state 0) = [] \<and> is_checkmate toy (heap mated_state 0)
   \<and> map_option fst (negamax (Suc 0) toy 0 1 NegInf PosInf (- 1) 0 None mated_state)
       = Some (Fin MATE_SCORE)
   \<and> map_option fst (negamax (Suc 0) toy 0 1 NegInf PosInf 1 0 None mated_state)
       = Some (Fin (- MATE_SCORE))
   \<and> map_option fst (search_best_move 5 toy 0 2 None toy_state) = Some (Some Shuffle)"
  by (simp add: run_defs mated_state_def upto.simps)

section \<open>The bound stored in the transposition table\<close>

text \<open>
  The loop ends each round with \<open>alpha = max(alpha, value)\<close>, so after it
  \<open>value <= alpha\<close> always holds, and the test \<open>value <= alpha\<close> that chooses the
  bound is always true.
\<close>

lemma negamax_loop_value_le_alpha:
  "negamax_loop n E a depth ms v bm alpha beta color st mt s = Some (v', bm', alpha', s')
     \<Longrightarrow> v \<le> alpha \<Longrightarrow> v' \<le> alpha'"
proof (induction ms arbitrary: v bm alpha s)
  case Nil
  then show ?case by simp
next
  case (Cons m ms)
  from Cons.prems(1) obtain r1 s3 where
    c: "negamax n E (nxt s) (depth - 1) (- beta) (- alpha) (- color) st mt (child_state E a m s)
        = Some (r1, s3)"
    by (auto simp: negamax_loop_Cons split: option.splits)
  let ?v1 = "if v < - r1 then - r1 else v"
  have le: "?v1 \<le> max alpha ?v1" by simp
  show ?case
  proof (cases "beta \<le> max alpha ?v1")
    case True
    from negamax_loop_cutoff[OF c True, of ms bm] Cons.prems(1)
    have "Some (v', bm', alpha', s')
          = Some (?v1, if v < - r1 then Some m else bm, max alpha ?v1, s3)"
      by (simp only:)
    then have "v' = ?v1" "alpha' = max alpha ?v1" by blast+
    with le show ?thesis by simp
  next
    case False
    with Cons.prems(1) c have
      "negamax_loop n E a depth ms ?v1 (if v < - r1 then Some m else bm) (max alpha ?v1) beta
         color st mt s3 = Some (v', bm', alpha', s')"
      by (simp add: negamax_loop_Cons Let_def)
    then show ?thesis using le by (rule Cons.IH)
  qed
qed

lemma negamax_search_stores_upperbound:
  assumes "negamax_search n E a depth alpha beta color st mt tm s = Some (r, s')"
    and "depth \<noteq> 0" and "legal_moves E (heap s a) \<noteq> []"
  shows "map_option tt_node_type (tt s' (fen E (heap s a))) = Some UPPERBOUND"
proof -
  let ?om = "order_moves E (heap s a) (legal_moves E (heap s a)) tm s"
  from assms obtain v bm' al' s3 where
    lp: "negamax_loop n E a depth (fst ?om) NegInf None alpha beta color st mt (snd ?om)
         = Some (v, bm', al', s3)"
    and s': "s' = s3\<lparr>tt := (tt s3)(fen E (heap s a) \<mapsto>
          \<lparr>tt_depth = depth, tt_score = v,
           tt_node_type = (if v \<le> al' then UPPERBOUND else if beta \<le> v then LOWERBOUND else EXACT),
           tt_best_move = bm'\<rparr>)\<rparr>"
    by (auto simp: negamax_search_def Let_def split: prod.splits option.splits)
  have "NegInf \<le> alpha" by simp
  with lp have "v \<le> al'" by (rule negamax_loop_value_le_alpha)
  with s' show ?thesis by simp
qed

text \<open>
  Claim C3 fails on the code. From \<open>Start\<close> at depth 1 the value is 100000. With the
  window \<open>(-inf, +inf)\<close> it lies strictly inside the window, and the claim wants
  \<open>EXACT\<close>; with the window \<open>(-inf, 0)\<close> the loop ends in a fail-high cutoff, and
  the claim wants \<open>LOWERBOUND\<close>. The entry stored is \<open>UPPERBOUND\<close> both times.
\<close>

theorem stored_bound_is_always_upperbound:
  "map_option (\<lambda>(v, s'). (v, map_option tt_node_type (tt s' (fen toy Start))))
      (negamax 4 toy 0 1 NegInf PosInf 1 0 None toy_state) = Some (Fin 100000, Some UPPERBOUND)
   \<and> map_option (\<lambda>(v, s'). (v, map_option tt_node_type (tt s' (fen toy Start))))
      (negamax 4 toy 0 1 NegInf (Fin 0) 1 0 None toy_state) = Some (Fin 100000, Some UPPERBOUND)"
  by (simp add: run_defs)

end
